theory Spec2Isabelle
  imports Main "HOL-Library.Word"
begin

unbundle bit_operations_syntax

section \<open>The image codec of \<^verbatim>\<open>src/main.py\<close>\<close>

text \<open>
  A shallow embedding of the bit-level codec: \<^verbatim>\<open>encode_bits\<close>, the class
  \<^verbatim>\<open>BitArray\<close> (\<^verbatim>\<open>add_bits\<close>, \<^verbatim>\<open>to_bytes\<close>, \<^verbatim>\<open>read_bits\<close>),
  \<^verbatim>\<open>encode_image\<close> and \<^verbatim>\<open>decode_image\<close>.

  Python integers are \<open>int\<close>, a \<^verbatim>\<open>bytes\<close> object is a list of 8-bit words, a list of
  \<^verbatim>\<open>bool\<close> is a \<open>bool list\<close>. Every exception the code can raise is a value
  \<open>Inl e\<close> of the result. The \<^verbatim>\<open>print\<close> of the progress percentage is not modelled,
  but the counters \<^verbatim>\<open>step\<close> and \<^verbatim>\<open>encoding_index\<close> behind it are, and so is the
  remainder by \<^verbatim>\<open>step_size\<close> that decides it.
\<close>

subsection \<open>Data\<close>

type_synonym byte = "8 word"
type_synonym Pixel = "int \<times> int \<times> int"
type_synonym PixelList = "Pixel list"

datatype error = ZeroDivisionError | IndexError | ValueError

subsection \<open>\<^verbatim>\<open>encode_bits\<close>\<close>

text \<open>
  The loop appends the lowest bit of \<open>v\<close> and shifts \<open>v\<close> right, \<open>len\<close> times; the
  list is reversed at the end. \<^verbatim>\<open>&\<close> and \<^verbatim>\<open>>>\<close> on Python integers are the
  two's complement operations, as \<open>AND\<close> and \<open>drop_bit\<close> on \<open>int\<close> are.
\<close>

fun encode_bits_loop :: "int \<Rightarrow> nat \<Rightarrow> bool list \<Rightarrow> bool list" where
  "encode_bits_loop v 0 bits = bits"
| "encode_bits_loop v (Suc n) bits = encode_bits_loop (drop_bit 1 v) n (bits @ [v AND 1 \<noteq> 0])"

definition encode_bits :: "int \<Rightarrow> nat \<Rightarrow> bool list" where
  "encode_bits v len = rev (encode_bits_loop v len [])"

subsection \<open>\<^verbatim>\<open>BitArray\<close>\<close>

record BitArray =
  data :: "byte list"
  buffer :: "bool list"
  index :: nat

definition BitArray_init :: "byte list \<Rightarrow> BitArray" where
  "BitArray_init d = \<lparr>data = d, buffer = replicate 8 False, index = 0\<rparr>"

definition reset_buffer :: "BitArray \<Rightarrow> BitArray" where
  "reset_buffer ba = ba\<lparr>buffer := replicate 8 False, index := 0\<rparr>"

text \<open>
  The expression \<^verbatim>\<open>buffer[0] << 7 | buffer[1] << 6 | ... | buffer[7]\<close> that both
  \<^verbatim>\<open>add_bits\<close> and \<^verbatim>\<open>to_bytes\<close> hand to \<^verbatim>\<open>bytes([...])\<close>. Reading
  \<^verbatim>\<open>buffer[7]\<close> of a shorter list raises IndexError. The value is below 256, so
  \<^verbatim>\<open>bytes\<close> accepts it.
\<close>

definition buffer_int :: "bool list \<Rightarrow> int" where
  "buffer_int b =
     (push_bit 7 (of_bool (b ! 0)) OR push_bit 6 (of_bool (b ! 1))
      OR push_bit 5 (of_bool (b ! 2)) OR push_bit 4 (of_bool (b ! 3))
      OR push_bit 3 (of_bool (b ! 4)) OR push_bit 2 (of_bool (b ! 5))
      OR push_bit 1 (of_bool (b ! 6)) OR of_bool (b ! 7))"

definition write_buffer :: "BitArray \<Rightarrow> error + BitArray" where
  "write_buffer ba =
     (if length (buffer ba) < 8 then Inl IndexError
      else if buffer_int (buffer ba) < 0 \<or> 255 < buffer_int (buffer ba) then Inl ValueError
      else Inr (reset_buffer (ba\<lparr>data := data ba @ [word_of_int (buffer_int (buffer ba))]\<rparr>)))"

text \<open>One round of the loop of \<^verbatim>\<open>add_bits\<close>.\<close>

definition add_bit :: "BitArray \<Rightarrow> bool \<Rightarrow> error + BitArray" where
  "add_bit ba b =
     (if length (buffer ba) \<le> index ba then Inl IndexError
      else let ba1 = ba\<lparr>buffer := (buffer ba)[index ba := b], index := index ba + 1\<rparr>
           in if index ba1 = 8 then write_buffer ba1 else Inr ba1)"

fun add_bits :: "BitArray \<Rightarrow> bool list \<Rightarrow> error + BitArray" where
  "add_bits ba [] = Inr ba"
| "add_bits ba (b # bs) =
     (case add_bit ba b of Inl e \<Rightarrow> Inl e | Inr ba1 \<Rightarrow> add_bits ba1 bs)"

text \<open>\<^verbatim>\<open>to_bytes\<close> returns the data and leaves the object with an empty buffer.\<close>

definition to_bytes :: "BitArray \<Rightarrow> error + (byte list \<times> BitArray)" where
  "to_bytes ba =
     (if index ba > 0
      then (case write_buffer ba of Inl e \<Rightarrow> Inl e | Inr ba1 \<Rightarrow> Inr (data ba1, ba1))
      else Inr (data ba, ba))"

text \<open>
  A Python slice \<^verbatim>\<open>xs[s:e]\<close>: a negative bound counts from the end, and both bounds
  are clipped to the list, so that a slice never raises.
\<close>

definition py_slice :: "'a list \<Rightarrow> int \<Rightarrow> int \<Rightarrow> 'a list" where
  "py_slice xs s e =
     (let n = int (length xs);
          s1 = (if s < 0 then max (s + n) 0 else min s n);
          e1 = (if e < 0 then max (e + n) 0 else min e n)
      in take (nat (e1 - s1)) (drop (nat s1) xs))"

text \<open>\<^verbatim>\<open>int.from_bytes(bs, 'big')\<close>.\<close>

definition from_bytes_big :: "byte list \<Rightarrow> int" where
  "from_bytes_big bs = foldl (\<lambda>acc b. acc * 256 + uint b) 0 bs"

text \<open>
  \<^verbatim>\<open>read_bits\<close>. \<^verbatim>\<open>1 << length\<close> raises ValueError for a negative length; nothing
  else in the function can raise.
\<close>

definition read_bits :: "BitArray \<Rightarrow> int \<Rightarrow> int \<Rightarrow> error + int" where
  "read_bits ba idx len =
     (if len < 0 then Inl ValueError
      else
        let mask = push_bit (nat len) 1 - 1;
            start_index = idx div 8;
            end_index = (idx + len + 7) div 8;
            shift = (8 - (idx + len)) mod 8;
            v = from_bytes_big (py_slice (data ba) start_index end_index);
            v = drop_bit (nat shift) v
        in Inr (v AND mask))"

subsection \<open>Constants\<close>

definition BITS_FOR_DIFF :: int where "BITS_FOR_DIFF = 4"
definition DIFF_VAL :: int where "DIFF_VAL = BITS_FOR_DIFF - 1"
definition DIFF_MOD :: int where "DIFF_MOD = push_bit (nat DIFF_VAL) 1"
definition MAX_DIFF :: int where "MAX_DIFF = DIFF_MOD - 1"
definition MIN_DIFF :: int where "MIN_DIFF = - DIFF_MOD"

subsection \<open>\<^verbatim>\<open>encode_image\<close>\<close>

text \<open>
  The body of the inner loop up to the progress counter: the code of one value
  \<open>val\<close> after the value \<open>current_value\<close>, appended to the bit array.
\<close>

definition encode_value :: "BitArray \<Rightarrow> int \<Rightarrow> int \<Rightarrow> error + BitArray" where
  "encode_value ba current_value val =
     (let delta = val - current_value
      in if delta < MIN_DIFF \<or> delta > MAX_DIFF
         then (case add_bits ba [False] of Inl e \<Rightarrow> Inl e
               | Inr ba1 \<Rightarrow> add_bits ba1 (encode_bits val 8))
         else (case add_bits ba [True] of Inl e \<Rightarrow> Inl e
               | Inr ba1 \<Rightarrow>
                 (case add_bits ba1 [delta < 0] of Inl e \<Rightarrow> Inl e
                  | Inr ba2 \<Rightarrow> add_bits ba2 (encode_bits (delta mod DIFF_MOD) (nat DIFF_VAL)))))"

text \<open>
  The progress counter: \<^verbatim>\<open>encoding_index % step_size\<close> raises ZeroDivisionError
  when \<open>step_size\<close> is 0. The pair is (\<open>step\<close>, index), the index already
  incremented.
\<close>

definition progress :: "int \<Rightarrow> int \<times> int \<Rightarrow> error + int \<times> int" where
  "progress step_size p =
     (case p of (step, i) \<Rightarrow>
        if step_size = 0 then Inl ZeroDivisionError
        else if i mod step_size = 0 then Inr (step + 1, i) else Inr (step, i))"

text \<open>
  The inner loop over one channel. The state is the bit array, \<open>current_value\<close>,
  and the counters \<open>step\<close> and \<open>encoding_index\<close>.
\<close>

fun encode_channel ::
  "int \<Rightarrow> int list \<Rightarrow> BitArray \<times> int \<times> int \<times> int \<Rightarrow> error + BitArray \<times> int \<times> int \<times> int" where
  "encode_channel step_size [] s = Inr s"
| "encode_channel step_size (val # vals) (ba, current_value, step, encoding_index) =
     (case encode_value ba current_value val of Inl e \<Rightarrow> Inl e
      | Inr ba1 \<Rightarrow>
        (case progress step_size (step, encoding_index + 1) of Inl e \<Rightarrow> Inl e
         | Inr (step1, i1) \<Rightarrow> encode_channel step_size vals (ba1, val, step1, i1)))"

text \<open>The outer loop: each channel starts with \<open>current_value = 0\<close>.\<close>

fun encode_channels ::
  "int \<Rightarrow> int list list \<Rightarrow> BitArray \<times> int \<times> int \<Rightarrow> error + BitArray \<times> int \<times> int" where
  "encode_channels step_size [] s = Inr s"
| "encode_channels step_size (channel # channels) (ba, step, encoding_index) =
     (case encode_channel step_size channel (ba, 0, step, encoding_index) of Inl e \<Rightarrow> Inl e
      | Inr (ba1, v, step1, i1) \<Rightarrow> encode_channels step_size channels (ba1, step1, i1))"

definition encode_image :: "int \<Rightarrow> int \<Rightarrow> PixelList \<Rightarrow> error + byte list" where
  "encode_image width height pixels =
     (case add_bits (BitArray_init []) (encode_bits width 16) of Inl e \<Rightarrow> Inl e
      | Inr eb1 \<Rightarrow>
      (case add_bits eb1 (encode_bits height 16) of Inl e \<Rightarrow> Inl e
       | Inr eb2 \<Rightarrow>
         let red = map (\<lambda>pixel. fst pixel) pixels;
             green = map (\<lambda>pixel. fst (snd pixel)) pixels;
             blue = map (\<lambda>pixel. snd (snd pixel)) pixels;
             total_encoding = 3 * width * height;
             step_size = total_encoding div 100
         in (case encode_channels step_size [red, green, blue] (eb2, 0, 0) of Inl e \<Rightarrow> Inl e
             | Inr (eb3, step, encoding_index) \<Rightarrow>
               (case to_bytes eb3 of Inl e \<Rightarrow> Inl e | Inr (bs, eb4) \<Rightarrow> Inr bs))))"

subsection \<open>\<^verbatim>\<open>decode_image\<close>\<close>

text \<open>
  The nested \<^verbatim>\<open>get_next_bits\<close> reads at the cursor and advances it; the cursor
  is returned with the value.
\<close>

definition get_next_bits :: "BitArray \<Rightarrow> int \<Rightarrow> int \<Rightarrow> error + int \<times> int" where
  "get_next_bits bits idx n =
     (case read_bits bits idx n of Inl e \<Rightarrow> Inl e | Inr v \<Rightarrow> Inr (v, idx + n))"

text \<open>
  The body of the inner loop up to \<^verbatim>\<open>channel.append(value)\<close>: from the cursor and
  the previous value to the next value and the cursor after it.
\<close>

definition decode_value :: "BitArray \<Rightarrow> int \<Rightarrow> int \<Rightarrow> error + int \<times> int" where
  "decode_value bits idx v =
     (case get_next_bits bits idx 1 of Inl e \<Rightarrow> Inl e
      | Inr (use_difference, idx1) \<Rightarrow>
        if use_difference \<noteq> 0
        then (case get_next_bits bits idx1 1 of Inl e \<Rightarrow> Inl e
              | Inr (negative, idx2) \<Rightarrow>
                (case get_next_bits bits idx2 DIFF_VAL of Inl e \<Rightarrow> Inl e
                 | Inr (difference, idx3) \<Rightarrow>
                   let difference = (if negative \<noteq> 0 then difference - DIFF_MOD else difference)
                   in Inr (v + difference, idx3)))
        else get_next_bits bits idx1 8)"

text \<open>
  The inner loop, \<open>n\<close> rounds of it left. The state is the cursor, the value,
  the channel decoded so far, and the counters \<open>step\<close> and \<open>decoding_index\<close>.
\<close>

fun decode_channel ::
  "BitArray \<Rightarrow> int \<Rightarrow> nat \<Rightarrow> int \<times> int \<times> int list \<times> int \<times> int
     \<Rightarrow> error + int \<times> int \<times> int list \<times> int \<times> int" where
  "decode_channel bits step_size 0 s = Inr s"
| "decode_channel bits step_size (Suc n) (idx, v, channel, step, decoding_index) =
     (case decode_value bits idx v of Inl e \<Rightarrow> Inl e
      | Inr (v1, idx1) \<Rightarrow>
        (case progress step_size (step, decoding_index + 1) of Inl e \<Rightarrow> Inl e
         | Inr (step1, i1) \<Rightarrow>
           decode_channel bits step_size n (idx1, v1, channel @ [v1], step1, i1)))"

fun zip3 :: "'a list \<Rightarrow> 'b list \<Rightarrow> 'c list \<Rightarrow> ('a \<times> 'b \<times> 'c) list" where
  "zip3 red green blue = zip red (zip green blue)"

text \<open>
  The outer loop runs over the three lists \<open>red\<close>, \<open>green\<close>, \<open>blue\<close>; it is
  written out as its three rounds. Each starts with value 0; the cursor and the
  counters carry over.
\<close>

definition decode_image :: "byte list \<Rightarrow> error + int \<times> int \<times> PixelList" where
  "decode_image d =
     (let bits = BitArray_init d
      in case read_bits bits 0 16 of Inl e \<Rightarrow> Inl e
         | Inr width \<Rightarrow>
         (case read_bits bits 16 16 of Inl e \<Rightarrow> Inl e
          | Inr height \<Rightarrow>
            let pixel_count = width * height;
                total_decoding = 3 * width * height;
                step_size = total_decoding div 100
            in (case decode_channel bits step_size (nat pixel_count) (32, 0, [], 0, 0) of
                  Inl e \<Rightarrow> Inl e
                | Inr (idx1, v1, red, step1, i1) \<Rightarrow>
                (case decode_channel bits step_size (nat pixel_count) (idx1, 0, [], step1, i1) of
                   Inl e \<Rightarrow> Inl e
                 | Inr (idx2, v2, green, step2, i2) \<Rightarrow>
                 (case decode_channel bits step_size (nat pixel_count) (idx2, 0, [], step2, i2) of
                    Inl e \<Rightarrow> Inl e
                  | Inr (idx3, v3, blue, step3, i3) \<Rightarrow>
                      Inr (width, height, zip3 red green blue))))))"

section \<open>Specification-level notions\<close>

text \<open>
  The definitions of this section are not translated from the code. They say what the
  spec means by a bit sequence read most significant bit first, and give the invariant
  and the wire format that the proofs below compare the code against.
\<close>

subsection \<open>Bit sequences, most significant bit first\<close>

text \<open>The unsigned value of a bit sequence whose first bit is the most significant.\<close>

definition bits_val :: "bool list \<Rightarrow> int" where
  "bits_val bs = foldl (\<lambda>a b. 2 * a + of_bool b) 0 bs"

text \<open>The eight bits of a byte, bit 7 first.\<close>

definition byte_bits :: "byte \<Rightarrow> bool list" where
  "byte_bits w = map (\<lambda>i. bit w i) (rev [0..<8])"

text \<open>
  A byte buffer as a dense bit sequence: position 0 is the most significant bit of
  byte 0.
\<close>

definition bits_of_bytes :: "byte list \<Rightarrow> bool list" where
  "bits_of_bytes d = concat (map byte_bits d)"

subsection \<open>The invariant of a \<^verbatim>\<open>BitArray\<close> that is written to\<close>

text \<open>
  The buffer has eight slots, fewer than eight of them are taken, and the free slots
  hold \<open>False\<close>. \<open>contents\<close> is every bit appended so far: those of the
  finished bytes and the pending ones.
\<close>

definition buffer_ok :: "BitArray \<Rightarrow> bool" where
  "buffer_ok ba \<longleftrightarrow> length (buffer ba) = 8 \<and> index ba < 8
     \<and> drop (index ba) (buffer ba) = replicate (8 - index ba) False"

definition contents :: "BitArray \<Rightarrow> bool list" where
  "contents ba = bits_of_bytes (data ba) @ take (index ba) (buffer ba)"

subsection \<open>The wire format\<close>

text \<open>
  The code of one sample \<open>v\<close> after the predictor \<open>p\<close>: a literal (flag 0 and
  eight bits) or a delta (flag 1, sign, three bits); a channel substream; and a frame
  without its padding.
\<close>

definition sample_code :: "int \<Rightarrow> int \<Rightarrow> bool list" where
  "sample_code p v =
     (if v - p < - 8 \<or> v - p > 7 then False # encode_bits v 8
      else [True, v - p < 0] @ encode_bits ((v - p) mod 8) 3)"

fun channel_code :: "int \<Rightarrow> int list \<Rightarrow> bool list" where
  "channel_code p [] = []"
| "channel_code p (v # vs) = sample_code p v @ channel_code v vs"

definition frame_bits :: "int \<Rightarrow> int \<Rightarrow> PixelList \<Rightarrow> bool list" where
  "frame_bits w h px =
     encode_bits w 16 @ encode_bits h 16
     @ channel_code 0 (map (\<lambda>pixel. fst pixel) px)
     @ channel_code 0 (map (\<lambda>pixel. fst (snd pixel)) px)
     @ channel_code 0 (map (\<lambda>pixel. snd (snd pixel)) px)"

text \<open>
  A valid image: both dimensions fit in 16 unsigned bits, there are width times height
  pixels, and every channel value is a byte.
\<close>

definition valid_image :: "int \<Rightarrow> int \<Rightarrow> PixelList \<Rightarrow> bool" where
  "valid_image w h px \<longleftrightarrow>
     0 \<le> w \<and> w \<le> 65535 \<and> 0 \<le> h \<and> h \<le> 65535 \<and> int (length px) = w * h
     \<and> (\<forall>(r, g, b) \<in> set px. 0 \<le> r \<and> r \<le> 255 \<and> 0 \<le> g \<and> g \<le> 255 \<and> 0 \<le> b \<and> b \<le> 255)"

section \<open>Lemmas\<close>

subsection \<open>Values of bit sequences\<close>

lemma bits_val_Nil: "bits_val [] = 0"
  by (simp add: bits_val_def)

lemma bits_val_snoc: "bits_val (bs @ [b]) = 2 * bits_val bs + of_bool b"
  by (simp add: bits_val_def)

lemma bits_val_append: "bits_val (xs @ ys) = bits_val xs * 2 ^ length ys + bits_val ys"
proof (induction ys rule: rev_induct)
  case Nil
  show ?case by (simp add: bits_val_Nil)
next
  case (snoc y ys)
  have "bits_val (xs @ ys @ [y]) = 2 * bits_val (xs @ ys) + of_bool y"
    using bits_val_snoc [of "xs @ ys" y] by simp
  then show ?case
    by (simp add: snoc.IH bits_val_snoc algebra_simps)
qed

lemma bits_val_nonneg: "0 \<le> bits_val bs"
  by (induction bs rule: rev_induct) (simp_all add: bits_val_Nil bits_val_snoc)

lemma bits_val_less: "bits_val bs < 2 ^ length bs"
proof (induction bs rule: rev_induct)
  case Nil
  show ?case by (simp add: bits_val_Nil)
next
  case (snoc b bs)
  have "bits_val bs + 1 \<le> 2 ^ length bs" using snoc.IH by simp
  then have "2 * bits_val bs + 2 \<le> 2 * 2 ^ length bs" by simp
  then show ?case by (simp add: bits_val_snoc)
qed

lemma bits_val_Cons: "bits_val (b # bs) = of_bool b * 2 ^ length bs + bits_val bs"
  using bits_val_append [of "[b]" bs] bits_val_snoc [of "[]" b]
  by (simp add: bits_val_Nil)

lemma bits_val_1: "bits_val [b] = of_bool b"
  by (simp add: bits_val_def)

lemma bits_val_div:
  assumes "k \<le> length xs"
  shows "bits_val xs div 2 ^ k = bits_val (take (length xs - k) xs)"
proof -
  let ?a = "take (length xs - k) xs" and ?b = "drop (length xs - k) xs"
  have len: "length ?b = k" using assms by simp
  have "bits_val xs = bits_val (?a @ ?b)" by simp
  also have "\<dots> = bits_val ?a * 2 ^ k + bits_val ?b"
    by (simp only: bits_val_append len)
  finally have eq: "bits_val xs = bits_val ?a * 2 ^ k + bits_val ?b" .
  have "0 \<le> bits_val ?b" "bits_val ?b < 2 ^ k"
    using bits_val_nonneg [of ?b] bits_val_less [of ?b] len by simp_all
  then show ?thesis
    by (simp add: eq div_pos_pos_trivial)
qed

lemma bits_val_mod:
  assumes "k \<le> length xs"
  shows "bits_val xs mod 2 ^ k = bits_val (drop (length xs - k) xs)"
proof -
  let ?a = "take (length xs - k) xs" and ?b = "drop (length xs - k) xs"
  have len: "length ?b = k" using assms by simp
  have "bits_val xs = bits_val (?a @ ?b)" by simp
  also have "\<dots> = bits_val ?a * 2 ^ k + bits_val ?b"
    by (simp only: bits_val_append len)
  finally have eq: "bits_val xs = bits_val ?a * 2 ^ k + bits_val ?b" .
  have "0 \<le> bits_val ?b" "bits_val ?b < 2 ^ k"
    using bits_val_nonneg [of ?b] bits_val_less [of ?b] len by simp_all
  then show ?thesis
    by (simp add: eq mod_pos_pos_trivial)
qed

subsection \<open>\<^verbatim>\<open>encode_bits\<close> yields the low bits, highest first\<close>

lemma encode_bits_loop_eq:
  "encode_bits_loop v n acc = acc @ map (\<lambda>i. bit v i) [0..<n]"
proof (induction n arbitrary: v acc)
  case 0
  show ?case by simp
next
  case (Suc n)
  have low: "(v AND 1 \<noteq> 0) = bit v 0"
    by (simp add: and_one_eq bit_0 odd_iff_mod_2_eq_one)
  have "map (\<lambda>i. bit v i) [0..<Suc n] = bit v 0 # map (\<lambda>i. bit (drop_bit 1 v) i) [0..<n]"
    by (simp add: upt_conv_Cons map_Suc_upt [symmetric] bit_drop_bit_eq del: upt_Suc)
  then show ?case
    by (simp add: Suc.IH low del: upt_Suc)
qed

lemma encode_bits_eq: "encode_bits v n = map (\<lambda>i. bit v i) (rev [0..<n])"
  by (simp add: encode_bits_def encode_bits_loop_eq rev_map)

lemma length_encode_bits: "length (encode_bits v n) = n"
  by (simp add: encode_bits_eq)

lemma bit_map_Suc:
  fixes v :: int
  shows "map (\<lambda>i. bit v i) (rev [0..<Suc n]) = map (\<lambda>i. bit (drop_bit 1 v) i) (rev [0..<n]) @ [bit v 0]"
  by (simp add: upt_conv_Cons map_Suc_upt [symmetric] bit_drop_bit_eq rev_map del: upt_Suc)

lemma bits_val_bit_map:
  fixes v :: int
  shows "bits_val (map (\<lambda>i. bit v i) (rev [0..<n])) = take_bit n v"
proof (induction n arbitrary: v)
  case 0
  show ?case by (simp add: bits_val_Nil)
next
  case (Suc n)
  have "map (\<lambda>i. bit v i) (rev [0..<Suc n]) = map (\<lambda>i. bit (drop_bit 1 v) i) (rev [0..<n]) @ [bit v 0]"
    by (simp add: upt_conv_Cons map_Suc_upt [symmetric] bit_drop_bit_eq rev_map del: upt_Suc)
  then have "bits_val (map (\<lambda>i. bit v i) (rev [0..<Suc n])) = 2 * take_bit n (drop_bit 1 v) + of_bool (bit v 0)"
    by (simp only: bits_val_snoc Suc.IH)
  also have "\<dots> = take_bit (Suc n) v"
    by (simp add: take_bit_Suc drop_bit_Suc bit_0 mod_2_eq_odd)
  finally show ?case .
qed

lemma bits_val_encode_bits: "bits_val (encode_bits v n) = v mod 2 ^ n"
  by (simp add: encode_bits_eq bits_val_bit_map take_bit_eq_mod)

lemma bit_map_bits_val: "map (\<lambda>i. bit (bits_val bs) i) (rev [0..<length bs]) = bs"
proof (induction bs rule: rev_induct)
  case Nil
  show ?case by simp
next
  case (snoc b bs)
  have d: "drop_bit 1 (bits_val (bs @ [b])) = bits_val bs"
    by (simp add: bits_val_snoc drop_bit_Suc)
  have z: "bit (bits_val (bs @ [b])) 0 = b"
    by (simp add: bits_val_snoc bit_0)
  have "map (\<lambda>i. bit (bits_val (bs @ [b])) i) (rev [0..<Suc (length bs)]) = bs @ [b]"
    by (simp only: bit_map_Suc d z snoc.IH)
  then show ?case by simp
qed

subsection \<open>Bytes and their bits\<close>

lemma length_byte_bits: "length (byte_bits w) = 8"
  by (simp add: byte_bits_def)

lemma bits_val_byte_bits: "bits_val (byte_bits w) = uint w"
proof -
  have "byte_bits w = map (\<lambda>i. bit (uint w) i) (rev [0..<8])"
    by (simp add: byte_bits_def bit_uint_iff)
  then have "bits_val (byte_bits w) = take_bit 8 (uint w)"
    by (simp only: bits_val_bit_map)
  also have "\<dots> = uint w"
    using uint_lt2p [of w] by (simp add: take_bit_eq_mod)
  finally show ?thesis .
qed

lemma byte_bits_word_of_int:
  assumes "length bs = 8"
  shows "byte_bits (word_of_int (bits_val bs)) = bs"
proof -
  have "byte_bits (word_of_int (bits_val bs) :: byte) = map (\<lambda>i. bit (bits_val bs) i) (rev [0..<8])"
    by (simp add: byte_bits_def bit_word_of_int_iff)
  then show ?thesis
    using bit_map_bits_val [of bs] assms by simp
qed

lemma length_bits_of_bytes: "length (bits_of_bytes d) = 8 * length d"
  by (induction d) (simp_all add: bits_of_bytes_def length_byte_bits)

lemma bits_of_bytes_append: "bits_of_bytes (xs @ ys) = bits_of_bytes xs @ bits_of_bytes ys"
  by (simp add: bits_of_bytes_def)

lemma bits_of_bytes_Cons: "bits_of_bytes (x # xs) = byte_bits x @ bits_of_bytes xs"
  by (simp add: bits_of_bytes_def)

lemma bits_of_bytes_Nil: "bits_of_bytes [] = []"
  by (simp add: bits_of_bytes_def)

lemma from_bytes_big_snoc: "from_bytes_big (d @ [b]) = from_bytes_big d * 256 + uint b"
  by (simp add: from_bytes_big_def)

lemma from_bytes_big_bits: "from_bytes_big d = bits_val (bits_of_bytes d)"
proof (induction d rule: rev_induct)
  case Nil
  show ?case by (simp add: from_bytes_big_def bits_of_bytes_Nil bits_val_Nil)
next
  case (snoc b d)
  show ?case
    by (simp add: from_bytes_big_snoc snoc.IH bits_of_bytes_append bits_of_bytes_Cons
        bits_of_bytes_Nil bits_val_append length_byte_bits bits_val_byte_bits)
qed

lemma bits_of_bytes_drop: "bits_of_bytes (drop k d) = drop (8 * k) (bits_of_bytes d)"
proof (induction d arbitrary: k)
  case Nil
  show ?case by (simp add: bits_of_bytes_Nil)
next
  case (Cons x d)
  show ?case
  proof (cases k)
    case 0
    then show ?thesis by simp
  next
    case (Suc j)
    then show ?thesis
      by (simp add: bits_of_bytes_Cons Cons.IH length_byte_bits)
  qed
qed

lemma bits_of_bytes_take: "bits_of_bytes (take k d) = take (8 * k) (bits_of_bytes d)"
proof (induction d arbitrary: k)
  case Nil
  show ?case by (simp add: bits_of_bytes_Nil)
next
  case (Cons x d)
  show ?case
  proof (cases k)
    case 0
    then show ?thesis by (simp add: bits_of_bytes_Nil)
  next
    case (Suc j)
    then show ?thesis
      by (simp add: bits_of_bytes_Cons Cons.IH length_byte_bits)
  qed
qed

subsection \<open>\<^verbatim>\<open>read_bits\<close>\<close>

text \<open>
  Within the buffer a read returns the requested bits; a negative length apart it never raises; from a byte position at or past the end it returns 0.
\<close>

lemma mask_int: "push_bit n (1::int) - 1 = mask n"
  by (simp add: mask_eq_exp_minus_1 push_bit_eq_mult)

lemma read_core:
  fixes i n :: nat
  assumes inb: "i + n \<le> 8 * length d"
  defines "s \<equiv> i div 8" and "e \<equiv> (i + n + 7) div 8"
  shows "take_bit n (drop_bit (8 * e - (i + n)) (bits_val (bits_of_bytes (take (e - s) (drop s d)))))
         = bits_val (take n (drop i (bits_of_bytes d)))"
proof -
  let ?bits = "bits_of_bytes d"
  let ?B = "bits_of_bytes (take (e - s) (drop s d))"
  let ?r = "i mod 8"
  let ?k = "8 * e - (i + n)"
  have i_eq: "i = 8 * s + ?r" unfolding s_def by simp
  have e_eq: "i + n + 7 = 8 * e + (i + n + 7) mod 8" unfolding e_def by simp
  have q: "(i + n + 7) mod 8 < 8" by simp
  have ge: "i + n \<le> 8 * e" using e_eq q by linarith
  have eL: "e \<le> length d" using inb e_eq by linarith
  have se: "s \<le> e" using i_eq ge by linarith
  have B: "?B = take (8 * (e - s)) (drop (8 * s) ?bits)"
    by (simp only: bits_of_bytes_take bits_of_bytes_drop)
  have lenB: "length ?B = 8 * (e - s)"
    using eL se by (simp add: B length_bits_of_bytes)
  have k_le: "?k \<le> length ?B" using lenB i_eq ge se by linarith
  have rest: "length ?B - ?k = ?r + n" using lenB i_eq ge se by linarith
  have "drop_bit ?k (bits_val ?B) = bits_val (take (?r + n) ?B)"
    using bits_val_div [OF k_le] by (simp add: drop_bit_eq_div rest)
  moreover have "take_bit n (bits_val (take (?r + n) ?B)) = bits_val (drop ?r (take (?r + n) ?B))"
  proof -
    have l: "length (take (?r + n) ?B) = ?r + n" using rest by simp
    have "n \<le> length (take (?r + n) ?B)" using l by simp
    from bits_val_mod [OF this] show ?thesis
      by (simp only: take_bit_eq_mod l) simp
  qed
  moreover have "drop ?r (take (?r + n) ?B) = take n (drop i ?bits)"
  proof -
    have "drop ?r (take (?r + n) ?B) = take n (drop ?r ?B)"
      by (simp add: drop_take)
    also have "drop ?r ?B = take (8 * (e - s) - ?r) (drop (8 * s + ?r) ?bits)"
      by (simp only: B drop_take drop_drop add.commute)
    also have "take n (take (8 * (e - s) - ?r) (drop (8 * s + ?r) ?bits)) = take n (drop (8 * s + ?r) ?bits)"
    proof -
      have "n \<le> 8 * (e - s) - ?r" using i_eq ge se by linarith
      then show ?thesis by (simp add: min_absorb1)
    qed
    finally show ?thesis using i_eq by simp
  qed
  ultimately show ?thesis by simp
qed

lemma py_slice_nat:
  assumes "s \<le> e" "e \<le> length xs"
  shows "py_slice xs (int s) (int e) = take (e - s) (drop s xs)"
proof -
  have "nat (int e - int s) = e - s" by simp
  then show ?thesis
    using assms by (simp add: py_slice_def Let_def min_absorb1 del: nat_diff_distrib')
qed

lemma py_slice_beyond:
  assumes "int (length xs) \<le> s"
  shows "py_slice xs s e = []"
  using assms by (simp add: py_slice_def Let_def)

lemma py_slice_to_end:
  assumes "0 \<le> s" "int (length xs) \<le> e"
  shows "py_slice xs s e = drop (nat s) xs"
proof (cases "s \<le> int (length xs)")
  case True
  then show ?thesis using assms by (simp add: py_slice_def Let_def min_absorb1 min_absorb2)
next
  case False
  then show ?thesis using assms by (simp add: py_slice_def Let_def min_absorb2)
qed

lemma read_bits_in_bounds:
  assumes "0 \<le> idx" "0 \<le> len" "idx + len \<le> 8 * int (length (data ba))"
  shows "read_bits ba idx len =
         Inr (bits_val (take (nat len) (drop (nat idx) (bits_of_bytes (data ba)))))"
proof -
  define i n where "i = nat idx" and "n = nat len"
  define s e where "s = i div 8" and "e = (i + n + 7) div 8"
  have idx: "idx = int i" and len: "len = int n"
    using assms by (simp_all add: i_def n_def)
  have inb: "i + n \<le> 8 * length (data ba)"
    using assms(3) unfolding idx len by linarith
  have i_eq: "i = 8 * s + i mod 8" unfolding s_def by simp
  have e_eq: "i + n + 7 = 8 * e + (i + n + 7) mod 8" unfolding e_def by simp
  have q: "(i + n + 7) mod 8 < 8" by simp
  have ge: "i + n \<le> 8 * e" using e_eq q by linarith
  have eL: "e \<le> length (data ba)" using inb e_eq by linarith
  have se: "s \<le> e" using i_eq ge by linarith
  have s_int: "idx div 8 = int s" unfolding idx s_def by (simp add: zdiv_int)
  have e_int: "(idx + len + 7) div 8 = int e"
    unfolding idx len e_def by (simp add: zdiv_int)
  have sh: "nat ((8 - (idx + len)) mod 8) = 8 * e - (i + n)"
  proof -
    define t where "t = 8 * int e - int (i + n)"
    have t: "0 \<le> t" "t < 8" using ge e_eq q unfolding t_def by linarith+
    have "8 - (idx + len) = t + 8 * (1 - int e)"
      unfolding t_def idx len by simp
    then have "(8 - (idx + len)) mod 8 = t mod 8"
      by (simp only: mod_mult_self2)
    also have "\<dots> = t" using t by (simp add: mod_pos_pos_trivial)
    finally have "nat ((8 - (idx + len)) mod 8) = nat t" by simp
    then show ?thesis unfolding t_def by linarith
  qed
  have "read_bits ba idx len =
     Inr (take_bit n (drop_bit (8 * e - (i + n))
       (bits_val (bits_of_bytes (take (e - s) (drop s (data ba)))))))"
  proof -
    have nl: "\<not> len < 0" using assms(2) by simp
    show ?thesis
      unfolding read_bits_def Let_def
      by (simp only: nl if_False s_int e_int sh py_slice_nat [OF se eL]
          from_bytes_big_bits mask_int take_bit_eq_mask [symmetric] n_def [symmetric])
  qed
  then show ?thesis
    using read_core [OF inb] by (simp add: s_def e_def i_def n_def)
qed

lemma read_bits_nonneg_len:
  assumes "0 \<le> len"
  shows "\<exists>v. read_bits ba idx len = Inr v \<and> 0 \<le> v \<and> v < 2 ^ nat len"
proof -
  have "\<And>x::int. 0 \<le> take_bit (nat len) x \<and> take_bit (nat len) x < 2 ^ nat len"
    by simp
  then show ?thesis
    using assms by (simp add: read_bits_def Let_def mask_int take_bit_eq_mask [symmetric])
qed

lemma read_bits_beyond:
  assumes "0 \<le> len" "int (length (data ba)) \<le> idx div 8"
  shows "read_bits ba idx len = Inr 0"
  using assms by (simp add: read_bits_def Let_def py_slice_beyond from_bytes_big_def)

lemma read_at:
  assumes "bits_of_bytes d = pre @ xs @ post"
  shows "read_bits (BitArray_init d) (int (length pre)) (int (length xs)) = Inr (bits_val xs)"
proof -
  have "8 * length d = length pre + length xs + length post"
    using length_bits_of_bytes [of d] assms by simp
  then have "int (length pre) + int (length xs) \<le> 8 * int (length (data (BitArray_init d)))"
    by (simp add: BitArray_init_def)
  from read_bits_in_bounds [OF _ _ this]
  show ?thesis using assms by (simp add: BitArray_init_def)
qed

subsection \<open>Writing bits\<close>

text \<open>
  On a bit array that satisfies the invariant no write raises, and the contents grow by the bits written.
\<close>

lemma buffer_ok_init: "buffer_ok (BitArray_init d)"
  by (simp add: buffer_ok_def BitArray_init_def)

lemma contents_init: "contents (BitArray_init d) = bits_of_bytes d"
  by (simp add: contents_def BitArray_init_def)

lemma buffer_int_8:
  "buffer_int [b0, b1, b2, b3, b4, b5, b6, b7] = bits_val [b0, b1, b2, b3, b4, b5, b6, b7]"
  by (cases b0; cases b1; cases b2; cases b3; cases b4; cases b5; cases b6; cases b7;
      simp add: buffer_int_def bits_val_def)

lemma buffer_int_bits_val:
  assumes "length b = 8"
  shows "buffer_int b = bits_val b"
proof -
  from assms obtain b0 b1 b2 b3 b4 b5 b6 b7 where "b = [b0, b1, b2, b3, b4, b5, b6, b7]"
    by (auto simp: eval_nat_numeral length_Suc_conv)
  then show ?thesis by (simp only: buffer_int_8)
qed

lemma write_buffer_full:
  assumes "length (buffer ba) = 8"
  shows "\<exists>ba1. write_buffer ba = Inr ba1 \<and> buffer_ok ba1 \<and> index ba1 = 0
           \<and> bits_of_bytes (data ba1) = bits_of_bytes (data ba) @ buffer ba"
proof -
  let ?x = "buffer_int (buffer ba)"
  have x: "?x = bits_val (buffer ba)" by (rule buffer_int_bits_val [OF assms])
  have "0 \<le> ?x" "?x < 256"
    using bits_val_nonneg [of "buffer ba"] bits_val_less [of "buffer ba"] assms x by simp_all
  then have w: "write_buffer ba =
      Inr (reset_buffer (ba\<lparr>data := data ba @ [word_of_int ?x]\<rparr>))"
    using assms by (simp add: write_buffer_def)
  have "byte_bits (word_of_int ?x) = buffer ba"
    unfolding x by (rule byte_bits_word_of_int [OF assms])
  then show ?thesis
    by (simp add: w reset_buffer_def buffer_ok_def bits_of_bytes_append
        bits_of_bytes_Cons bits_of_bytes_Nil)
qed

lemma add_bit_ok:
  assumes "buffer_ok ba"
  shows "\<exists>ba1. add_bit ba b = Inr ba1 \<and> buffer_ok ba1 \<and> contents ba1 = contents ba @ [b]"
proof -
  let ?i = "index ba"
  let ?buf = "(buffer ba)[?i := b]"
  let ?ba1 = "ba\<lparr>buffer := ?buf, index := ?i + 1\<rparr>"
  have len: "length (buffer ba) = 8" and i8: "?i < 8"
    and zeros: "drop ?i (buffer ba) = replicate (8 - ?i) False"
    using assms by (simp_all add: buffer_ok_def)
  have tk: "take (?i + 1) ?buf = take ?i (buffer ba) @ [b]"
    using len i8 by (simp add: take_Suc_conv_app_nth)
  show ?thesis
  proof (cases "?i + 1 = 8")
    case True
    have full: "?buf = take ?i (buffer ba) @ [b]"
      using tk True len by simp
    have "add_bit ba b = write_buffer ?ba1"
      using len i8 True by (simp add: add_bit_def Let_def)
    moreover have "length (buffer ?ba1) = 8" using len by simp
    from write_buffer_full [OF this]
    obtain ba2 where "write_buffer ?ba1 = Inr ba2" "buffer_ok ba2" "index ba2 = 0"
      "bits_of_bytes (data ba2) = bits_of_bytes (data ?ba1) @ buffer ?ba1" by blast
    ultimately show ?thesis
      using full by (simp add: contents_def)
  next
    case False
    have r: "add_bit ba b = Inr ?ba1"
      using len i8 False by (simp add: add_bit_def Let_def)
    have "drop (?i + 1) ?buf = drop 1 (drop ?i (buffer ba))"
      by simp
    also have "\<dots> = replicate (8 - (?i + 1)) False"
      unfolding zeros by simp
    finally have "buffer_ok ?ba1"
      using len i8 False by (simp add: buffer_ok_def)
    then show ?thesis
      using r tk by (simp add: contents_def)
  qed
qed

lemma add_bits_ok:
  assumes "buffer_ok ba"
  shows "\<exists>ba1. add_bits ba bs = Inr ba1 \<and> buffer_ok ba1 \<and> contents ba1 = contents ba @ bs"
  using assms
proof (induction bs arbitrary: ba)
  case Nil
  then show ?case by simp
next
  case (Cons b bs)
  from add_bit_ok [OF Cons.prems, of b]
  obtain ba1 where a: "add_bit ba b = Inr ba1" "buffer_ok ba1" "contents ba1 = contents ba @ [b]"
    by blast
  from Cons.IH [OF a(2)]
  obtain ba2 where "add_bits ba1 bs = Inr ba2" "buffer_ok ba2" "contents ba2 = contents ba1 @ bs"
    by blast
  then show ?case using a by simp
qed

lemma to_bytes_ok:
  assumes "buffer_ok ba"
  shows "\<exists>d ba1. to_bytes ba = Inr (d, ba1)
           \<and> bits_of_bytes d = contents ba @ replicate ((8 - index ba) mod 8) False"
proof (cases "index ba > 0")
  case True
  have len: "length (buffer ba) = 8" and i8: "index ba < 8"
    and zeros: "drop (index ba) (buffer ba) = replicate (8 - index ba) False"
    using assms by (simp_all add: buffer_ok_def)
  from write_buffer_full [OF len]
  obtain ba1 where w: "write_buffer ba = Inr ba1"
    "bits_of_bytes (data ba1) = bits_of_bytes (data ba) @ buffer ba" by blast
  have "buffer ba = take (index ba) (buffer ba) @ replicate (8 - index ba) False"
    using zeros append_take_drop_id [of "index ba" "buffer ba"] by simp
  moreover have "(8 - index ba) mod 8 = 8 - index ba" using True i8 by simp
  ultimately have "bits_of_bytes (data ba1)
      = contents ba @ replicate ((8 - index ba) mod 8) False"
    using w(2) by (simp add: contents_def)
  then show ?thesis
    using True w(1) by (simp add: to_bytes_def)
next
  case False
  then show ?thesis
    by (simp add: to_bytes_def contents_def)
qed

text \<open>
  \<^verbatim>\<open>to_bytes\<close> leaves the bit array as a fresh one over the bytes it returns, and
  the number of pending bits is the number of bits written, modulo 8.
\<close>

lemma write_buffer_state:
  assumes "length (buffer ba) = 8"
  shows "\<exists>d. write_buffer ba = Inr (BitArray_init d)
           \<and> bits_of_bytes d = bits_of_bytes (data ba) @ buffer ba"
proof -
  from write_buffer_full [OF assms]
  obtain ba1 where w: "write_buffer ba = Inr ba1" "buffer_ok ba1" "index ba1 = 0"
    "bits_of_bytes (data ba1) = bits_of_bytes (data ba) @ buffer ba" by blast
  have "buffer ba1 = replicate 8 False"
    using w(2,3) by (simp add: buffer_ok_def)
  then have "ba1 = BitArray_init (data ba1)"
    using w(3) by (cases ba1) (simp add: BitArray_init_def)
  then show ?thesis using w(1,4) by metis
qed

lemma to_bytes_state:
  assumes "buffer_ok ba"
  shows "\<exists>d. to_bytes ba = Inr (d, BitArray_init d)
           \<and> bits_of_bytes d = contents ba @ replicate ((8 - index ba) mod 8) False"
proof (cases "index ba > 0")
  case True
  have len: "length (buffer ba) = 8" and i8: "index ba < 8"
    and zeros: "drop (index ba) (buffer ba) = replicate (8 - index ba) False"
    using assms by (simp_all add: buffer_ok_def)
  from write_buffer_state [OF len]
  obtain d where w: "write_buffer ba = Inr (BitArray_init d)"
    "bits_of_bytes d = bits_of_bytes (data ba) @ buffer ba" by blast
  have "buffer ba = take (index ba) (buffer ba) @ replicate (8 - index ba) False"
    using zeros append_take_drop_id [of "index ba" "buffer ba"] by simp
  moreover have "(8 - index ba) mod 8 = 8 - index ba" using True i8 by simp
  ultimately have "bits_of_bytes d = contents ba @ replicate ((8 - index ba) mod 8) False"
    using w(2) by (simp add: contents_def)
  then show ?thesis
    using True w(1) by (simp add: to_bytes_def BitArray_init_def)
next
  case False
  have "buffer ba = replicate 8 False"
    using assms False by (simp add: buffer_ok_def)
  then have "ba = BitArray_init (data ba)"
    using False by (cases ba) (simp add: BitArray_init_def)
  then show ?thesis
    using False by (simp add: to_bytes_def contents_def)
qed

lemma index_contents:
  assumes "buffer_ok ba"
  shows "index ba = length (contents ba) mod 8"
  using assms by (simp add: buffer_ok_def contents_def length_bits_of_bytes)

subsection \<open>Encoding\<close>

lemma diff_consts:
  "MIN_DIFF = - 8" "MAX_DIFF = 7" "DIFF_MOD = 8" "DIFF_VAL = 3" "nat DIFF_VAL = 3"
  by (simp_all add: MIN_DIFF_def MAX_DIFF_def DIFF_MOD_def DIFF_VAL_def BITS_FOR_DIFF_def)

lemma encode_value_ok:
  assumes "buffer_ok ba"
  shows "\<exists>ba1. encode_value ba p v = Inr ba1 \<and> buffer_ok ba1
           \<and> contents ba1 = contents ba @ sample_code p v"
proof (cases "v - p < - 8 \<or> v - p > 7")
  case True
  from add_bits_ok [OF assms, of "[False]"]
  obtain ba1 where a: "add_bits ba [False] = Inr ba1" "buffer_ok ba1"
    "contents ba1 = contents ba @ [False]" by blast
  from add_bits_ok [OF a(2), of "encode_bits v 8"]
  obtain ba2 where b: "add_bits ba1 (encode_bits v 8) = Inr ba2" "buffer_ok ba2"
    "contents ba2 = contents ba1 @ encode_bits v 8" by blast
  have "encode_value ba p v = Inr ba2"
    using True a(1) b(1) by (simp add: encode_value_def Let_def diff_consts del: add_bits.simps)
  then show ?thesis
    using True a(3) b(2,3) by (simp add: sample_code_def)
next
  case False
  let ?m = "encode_bits ((v - p) mod 8) 3"
  from add_bits_ok [OF assms, of "[True]"]
  obtain ba1 where a: "add_bits ba [True] = Inr ba1" "buffer_ok ba1"
    "contents ba1 = contents ba @ [True]" by blast
  from add_bits_ok [OF a(2), of "[v - p < 0]"]
  obtain ba2 where b: "add_bits ba1 [v - p < 0] = Inr ba2" "buffer_ok ba2"
    "contents ba2 = contents ba1 @ [v - p < 0]" by blast
  from add_bits_ok [OF b(2), of ?m]
  obtain ba3 where c: "add_bits ba2 ?m = Inr ba3" "buffer_ok ba3"
    "contents ba3 = contents ba2 @ ?m" by blast
  have "encode_value ba p v = Inr ba3"
    using False a(1) b(1) c(1) by (simp add: encode_value_def Let_def diff_consts del: add_bits.simps)
  then show ?thesis
    using False a(3) b(3) c(2,3) by (simp add: sample_code_def)
qed

lemma progress_ok:
  assumes "step_size \<noteq> 0"
  shows "\<exists>step1 i1. progress step_size (step, i) = Inr (step1, i1)"
  using assms by (simp add: progress_def)

lemma progress_zero: "progress 0 p = Inl ZeroDivisionError"
  by (cases p) (simp add: progress_def)

lemma encode_channel_ok:
  assumes "buffer_ok ba" "step_size \<noteq> 0 \<or> vs = []"
  shows "\<exists>ba1 v1 step1 i1. encode_channel step_size vs (ba, p, step, i) = Inr (ba1, v1, step1, i1)
           \<and> buffer_ok ba1 \<and> contents ba1 = contents ba @ channel_code p vs"
  using assms
proof (induction vs arbitrary: ba p step i)
  case Nil
  then show ?case by simp
next
  case (Cons v vs)
  have ss: "step_size \<noteq> 0" using Cons.prems(2) by simp
  from encode_value_ok [OF Cons.prems(1), of p v]
  obtain ba1 where a: "encode_value ba p v = Inr ba1" "buffer_ok ba1"
    "contents ba1 = contents ba @ sample_code p v" by blast
  from progress_ok [OF ss, of step "i + 1"]
  obtain step1 i1 where b: "progress step_size (step, i + 1) = Inr (step1, i1)" by blast
  from Cons.IH [OF a(2), of v step1 i1] ss
  obtain ba2 v2 step2 i2 where c:
    "encode_channel step_size vs (ba1, v, step1, i1) = Inr (ba2, v2, step2, i2)"
    "buffer_ok ba2" "contents ba2 = contents ba1 @ channel_code v vs" by blast
  show ?case
    using a(1,3) b c by simp
qed

lemma encode_channels_ok:
  assumes "buffer_ok ba" "step_size \<noteq> 0 \<or> (r = [] \<and> g = [] \<and> b = [])"
  shows "\<exists>ba1 step1 i1. encode_channels step_size [r, g, b] (ba, step, i) = Inr (ba1, step1, i1)
           \<and> buffer_ok ba1
           \<and> contents ba1 = contents ba @ channel_code 0 r @ channel_code 0 g @ channel_code 0 b"
proof -
  have r: "step_size \<noteq> 0 \<or> r = []" and g: "step_size \<noteq> 0 \<or> g = []"
    and b: "step_size \<noteq> 0 \<or> b = []" using assms(2) by auto
  from encode_channel_ok [OF assms(1) r, of 0 step i]
  obtain ba1 v1 step1 i1 where 1:
    "encode_channel step_size r (ba, 0, step, i) = Inr (ba1, v1, step1, i1)"
    "buffer_ok ba1" "contents ba1 = contents ba @ channel_code 0 r" by blast
  from encode_channel_ok [OF 1(2) g, of 0 step1 i1]
  obtain ba2 v2 step2 i2 where 2:
    "encode_channel step_size g (ba1, 0, step1, i1) = Inr (ba2, v2, step2, i2)"
    "buffer_ok ba2" "contents ba2 = contents ba1 @ channel_code 0 g" by blast
  from encode_channel_ok [OF 2(2) b, of 0 step2 i2]
  obtain ba3 v3 step3 i3 where 3:
    "encode_channel step_size b (ba2, 0, step2, i2) = Inr (ba3, v3, step3, i3)"
    "buffer_ok ba3" "contents ba3 = contents ba2 @ channel_code 0 b" by blast
  show ?thesis
    using 1 2 3 by simp
qed

lemma encode_image_bits:
  assumes "3 * w * h div 100 \<noteq> 0 \<or> px = []"
  shows "\<exists>d k. encode_image w h px = Inr d \<and> k < 8
           \<and> bits_of_bytes d = frame_bits w h px @ replicate k False"
proof -
  let ?r = "map (\<lambda>pixel. fst pixel) px"
  let ?g = "map (\<lambda>pixel. fst (snd pixel)) px"
  let ?b = "map (\<lambda>pixel. snd (snd pixel)) px"
  let ?ss = "3 * w * h div 100"
  from add_bits_ok [OF buffer_ok_init, of "[]" "encode_bits w 16"]
  obtain eb1 where 1: "add_bits (BitArray_init []) (encode_bits w 16) = Inr eb1" "buffer_ok eb1"
    "contents eb1 = encode_bits w 16"
    by (auto simp: contents_init bits_of_bytes_Nil)
  from add_bits_ok [OF 1(2), of "encode_bits h 16"]
  obtain eb2 where 2: "add_bits eb1 (encode_bits h 16) = Inr eb2" "buffer_ok eb2"
    "contents eb2 = contents eb1 @ encode_bits h 16" by blast
  have c: "?ss \<noteq> 0 \<or> (?r = [] \<and> ?g = [] \<and> ?b = [])" using assms by auto
  from encode_channels_ok [OF 2(2) c, of 0 0]
  obtain eb3 step1 i1 where 3:
    "encode_channels ?ss [?r, ?g, ?b] (eb2, 0, 0) = Inr (eb3, step1, i1)" "buffer_ok eb3"
    "contents eb3 = contents eb2 @ channel_code 0 ?r @ channel_code 0 ?g @ channel_code 0 ?b"
    by blast
  from to_bytes_ok [OF 3(2)]
  obtain d eb4 where 4: "to_bytes eb3 = Inr (d, eb4)"
    "bits_of_bytes d = contents eb3 @ replicate ((8 - index eb3) mod 8) False" by blast
  have "encode_image w h px = Inr d"
    unfolding encode_image_def Let_def by (simp only: 1(1) 2(1) 3(1) 4(1) sum.case prod.case)
  moreover have "bits_of_bytes d = frame_bits w h px @ replicate ((8 - index eb3) mod 8) False"
    using 1(3) 2(3) 3(3) 4(2) by (simp add: frame_bits_def)
  moreover have "(8 - index eb3) mod 8 < 8" by simp
  ultimately show ?thesis by blast
qed

lemma encode_channel_zero_step:
  assumes "buffer_ok ba"
  shows "encode_channel 0 (v # vs) (ba, p, step, i) = Inl ZeroDivisionError"
proof -
  from encode_value_ok [OF assms, of p v]
  obtain ba1 where "encode_value ba p v = Inr ba1" by blast
  then show ?thesis by (simp add: progress_zero)
qed

lemma encode_image_zero_step:
  assumes "3 * w * h div 100 = 0" "px \<noteq> []"
  shows "encode_image w h px = Inl ZeroDivisionError"
proof -
  obtain p ps where px: "px = p # ps" using assms(2) by (cases px) auto
  from add_bits_ok [OF buffer_ok_init, of "[]" "encode_bits w 16"]
  obtain eb1 where 1: "add_bits (BitArray_init []) (encode_bits w 16) = Inr eb1" "buffer_ok eb1"
    by blast
  from add_bits_ok [OF 1(2), of "encode_bits h 16"]
  obtain eb2 where 2: "add_bits eb1 (encode_bits h 16) = Inr eb2" "buffer_ok eb2" by blast
  let ?g = "map (\<lambda>pixel. fst (snd pixel)) px" and ?b = "map (\<lambda>pixel. snd (snd pixel)) px"
  have r: "map (\<lambda>pixel. fst pixel) px = fst p # map (\<lambda>pixel. fst pixel) ps"
    by (simp add: px)
  have "encode_channels 0 [map (\<lambda>pixel. fst pixel) px, ?g, ?b] (eb2, 0, 0)
        = Inl ZeroDivisionError"
    unfolding r
    by (simp only: encode_channels.simps encode_channel_zero_step [OF 2(2)] sum.case)
  then show ?thesis
    unfolding encode_image_def Let_def
    by (simp only: 1(1) 2(1) assms(1) sum.case)
qed

subsection \<open>Decoding\<close>

lemma get_next_bits_total:
  assumes "0 \<le> n"
  shows "\<exists>v. get_next_bits bits idx n = Inr (v, idx + n)"
  using read_bits_nonneg_len [OF assms, of bits idx] by (auto simp: get_next_bits_def)

lemma get_next_at:
  assumes "bits_of_bytes d = pre @ xs @ post" "idx = int (length pre)" "n = int (length xs)"
  shows "get_next_bits (BitArray_init d) idx n = Inr (bits_val xs, idx + n)"
  using read_at [OF assms(1)] assms(2,3) by (simp add: get_next_bits_def)

lemma get_next_bits_beyond:
  assumes "0 \<le> n" "8 * int (length d) \<le> idx"
  shows "get_next_bits (BitArray_init d) idx n = Inr (0, idx + n)"
proof -
  have "int (length (data (BitArray_init d))) \<le> idx div 8"
    using assms(2) by (simp add: BitArray_init_def)
  from read_bits_beyond [OF assms(1) this] show ?thesis
    by (simp add: get_next_bits_def)
qed

lemma decode_value_total: "\<exists>v1 idx1. decode_value bits idx v = Inr (v1, idx1)"
proof -
  obtain f where f: "get_next_bits bits idx 1 = Inr (f, idx + 1)"
    using get_next_bits_total [of 1 bits idx] by auto
  obtain s where s: "get_next_bits bits (idx + 1) 1 = Inr (s, idx + 1 + 1)"
    using get_next_bits_total [of 1 bits "idx + 1"] by auto
  obtain m where m: "get_next_bits bits (idx + 1 + 1) 3 = Inr (m, idx + 1 + 1 + 3)"
    using get_next_bits_total [of 3 bits "idx + 1 + 1"] by auto
  obtain l where l: "get_next_bits bits (idx + 1) 8 = Inr (l, idx + 1 + 8)"
    using get_next_bits_total [of 8 bits "idx + 1"] by auto
  show ?thesis
    unfolding decode_value_def diff_consts Let_def
    by (simp only: f s m l sum.case prod.case split: if_split) blast
qed

lemma decode_value_code:
  assumes bits: "bits_of_bytes d = pre @ sample_code p v @ post"
    and v: "0 \<le> v" "v \<le> 255"
  shows "decode_value (BitArray_init d) (int (length pre)) p =
         Inr (v, int (length pre) + int (length (sample_code p v)))"
proof (cases "v - p < - 8 \<or> v - p > 7")
  case True
  let ?bits = "BitArray_init d"
  let ?i = "int (length pre)"
  have sc: "sample_code p v = False # encode_bits v 8"
    using True by (simp add: sample_code_def)
  have 1: "bits_of_bytes d = pre @ [False] @ (encode_bits v 8 @ post)"
    using bits sc by simp
  have 2: "bits_of_bytes d = (pre @ [False]) @ encode_bits v 8 @ post"
    using bits sc by simp
  have g1: "get_next_bits ?bits ?i 1 = Inr (0, 1 + ?i)"
    using get_next_at [OF 1, of ?i 1] by (simp add: bits_val_1)
  have g2: "get_next_bits ?bits (1 + ?i) 8 = Inr (v, 9 + ?i)"
    using get_next_at [OF 2, of "1 + ?i" 8] v
    by (simp add: length_encode_bits bits_val_encode_bits)
  show ?thesis
    by (simp add: decode_value_def g1 g2 sc length_encode_bits)
next
  case False
  let ?bits = "BitArray_init d"
  let ?i = "int (length pre)"
  let ?neg = "v - p < 0"
  let ?m = "encode_bits ((v - p) mod 8) 3"
  have sc: "sample_code p v = [True, ?neg] @ ?m"
    using False by (simp add: sample_code_def)
  have 1: "bits_of_bytes d = pre @ [True] @ ([?neg] @ ?m @ post)"
    using bits sc by simp
  have 2: "bits_of_bytes d = (pre @ [True]) @ [?neg] @ (?m @ post)"
    using bits sc by simp
  have 3: "bits_of_bytes d = (pre @ [True, ?neg]) @ ?m @ post"
    using bits sc by simp
  have g1: "get_next_bits ?bits ?i 1 = Inr (1, 1 + ?i)"
    using get_next_at [OF 1, of ?i 1] by (simp add: bits_val_1)
  have g2: "get_next_bits ?bits (1 + ?i) 1 = Inr (of_bool ?neg, 2 + ?i)"
    using get_next_at [OF 2, of "1 + ?i" 1] by (simp add: bits_val_1)
  have g3: "get_next_bits ?bits (2 + ?i) 3 = Inr ((v - p) mod 8, 5 + ?i)"
    using get_next_at [OF 3, of "2 + ?i" 3]
    by (simp add: length_encode_bits bits_val_encode_bits)
  have rec_delta: "(if ?neg then (v - p) mod 8 - 8 else (v - p) mod 8) = v - p"
  proof (cases ?neg)
    case True
    have "(v - p) mod 8 = (v - p + 8) mod 8" by simp
    also have "\<dots> = v - p + 8"
      using True False by (intro mod_pos_pos_trivial) simp_all
    finally show ?thesis using True by simp
  next
    case nonneg: False
    then show ?thesis using False by (simp add: mod_pos_pos_trivial)
  qed
  have "decode_value ?bits ?i p =
        Inr (p + (if ?neg then (v - p) mod 8 - 8 else (v - p) mod 8), 5 + ?i)"
    by (simp add: decode_value_def g1 g2 g3 diff_consts Let_def)
  then show ?thesis
    by (simp only: rec_delta sc) (simp add: length_encode_bits)
qed

lemma decode_value_beyond:
  assumes "8 * int (length d) \<le> idx"
  shows "decode_value (BitArray_init d) idx v = Inr (0, idx + 9)"
proof -
  have 1: "get_next_bits (BitArray_init d) idx 1 = Inr (0, idx + 1)"
    using get_next_bits_beyond [OF _ assms, of 1] by simp
  have "8 * int (length d) \<le> idx + 1" using assms by simp
  from get_next_bits_beyond [OF _ this, of 8]
  have 2: "get_next_bits (BitArray_init d) (idx + 1) 8 = Inr (0, idx + 9)" by simp
  show ?thesis
    by (simp add: decode_value_def 1 2)
qed

lemma decode_channel_total:
  assumes "step_size \<noteq> 0 \<or> n = 0"
  shows "\<exists>idx1 v1 ch1 step1 i1.
           decode_channel bits step_size n (idx, v, ch, step, i) = Inr (idx1, v1, ch1, step1, i1)
           \<and> length ch1 = length ch + n"
  using assms
proof (induction n arbitrary: idx v ch step i)
  case 0
  then show ?case by simp
next
  case (Suc n)
  have ss: "step_size \<noteq> 0" using Suc.prems by simp
  obtain v1 idx1 where dv: "decode_value bits idx v = Inr (v1, idx1)"
    using decode_value_total by blast
  from progress_ok [OF ss, of step "i + 1"]
  obtain step1 i1 where pr: "progress step_size (step, i + 1) = Inr (step1, i1)" by blast
  from Suc.IH [of idx1 v1 "ch @ [v1]" step1 i1] ss
  obtain idx2 v2 ch2 step2 i2 where
    "decode_channel bits step_size n (idx1, v1, ch @ [v1], step1, i1)
       = Inr (idx2, v2, ch2, step2, i2)" "length ch2 = length (ch @ [v1]) + n" by blast
  then show ?case using dv pr by simp
qed

lemma decode_channel_code:
  assumes "bits_of_bytes d = pre @ channel_code p vs @ post"
    and "\<forall>v \<in> set vs. 0 \<le> v \<and> v \<le> 255"
    and "step_size \<noteq> 0 \<or> vs = []"
  shows "\<exists>v1 step1 i1.
           decode_channel (BitArray_init d) step_size (length vs) (int (length pre), p, ch, step, i)
           = Inr (int (length pre) + int (length (channel_code p vs)), v1, ch @ vs, step1, i1)"
  using assms
proof (induction vs arbitrary: pre p ch step i)
  case Nil
  then show ?case by simp
next
  case (Cons v vs)
  have ss: "step_size \<noteq> 0" using Cons.prems(3) by simp
  have v: "0 \<le> v" "v \<le> 255" using Cons.prems(2) by simp_all
  have 1: "bits_of_bytes d = pre @ sample_code p v @ (channel_code v vs @ post)"
    using Cons.prems(1) by simp
  have 2: "bits_of_bytes d = (pre @ sample_code p v) @ channel_code v vs @ post"
    using Cons.prems(1) by simp
  have rest: "\<forall>v \<in> set vs. 0 \<le> v \<and> v \<le> 255" using Cons.prems(2) by simp
  note dv = decode_value_code [OF 1 v]
  from progress_ok [OF ss, of step "i + 1"]
  obtain step1 i1 where pr: "progress step_size (step, i + 1) = Inr (step1, i1)" by blast
  from Cons.IH [OF 2 rest, of "ch @ [v]" step1 i1] ss
  obtain v2 step2 i2 where ih:
    "decode_channel (BitArray_init d) step_size (length vs)
       (int (length (pre @ sample_code p v)), v, ch @ [v], step1, i1)
     = Inr (int (length (pre @ sample_code p v)) + int (length (channel_code v vs)),
            v2, (ch @ [v]) @ vs, step2, i2)" by blast
  have "decode_channel (BitArray_init d) step_size (length (v # vs))
          (int (length pre), p, ch, step, i)
        = decode_channel (BitArray_init d) step_size (length vs)
            (int (length (pre @ sample_code p v)), v, ch @ [v], step1, i1)"
    using dv pr by simp
  then show ?case
    using ih by simp
qed

lemma decode_channel_beyond:
  assumes "8 * int (length d) \<le> idx" "step_size \<noteq> 0"
  shows "\<exists>v1 step1 i1.
           decode_channel (BitArray_init d) step_size n (idx, v, ch, step, i)
           = Inr (idx + 9 * int n, v1, ch @ replicate n 0, step1, i1)"
  using assms(1)
proof (induction n arbitrary: idx v ch step i)
  case 0
  then show ?case by simp
next
  case (Suc n)
  note dv = decode_value_beyond [OF Suc.prems, of v]
  from progress_ok [OF assms(2), of step "i + 1"]
  obtain step1 i1 where pr: "progress step_size (step, i + 1) = Inr (step1, i1)" by blast
  have "8 * int (length d) \<le> idx + 9" using Suc.prems by simp
  from Suc.IH [OF this, of 0 "ch @ [0]" step1 i1]
  obtain v2 step2 i2 where
    "decode_channel (BitArray_init d) step_size n (idx + 9, 0, ch @ [0], step1, i1)
       = Inr (idx + 9 + 9 * int n, v2, (ch @ [0]) @ replicate n 0, step2, i2)" by blast
  then show ?case
    using dv pr by (simp add: replicate_app_Cons_same algebra_simps)
qed

lemma decode_channel_zero_step:
  "decode_channel bits 0 (Suc n) (idx, v, ch, step, i) = Inl ZeroDivisionError"
proof -
  obtain v1 idx1 where "decode_value bits idx v = Inr (v1, idx1)"
    using decode_value_total by blast
  then show ?thesis by (simp add: progress_zero)
qed

lemma zip3_channels:
  "zip3 (map (\<lambda>pixel. fst pixel) px) (map (\<lambda>pixel. fst (snd pixel)) px)
     (map (\<lambda>pixel. snd (snd pixel)) px) = px"
  by (induction px) auto

lemma zip3_replicate: "zip3 (replicate n a) (replicate n b) (replicate n c) = replicate n (a, b, c)"
  by (induction n) simp_all

lemma decode_image_total:
  assumes w: "read_bits (BitArray_init d) 0 16 = Inr w"
    and h: "read_bits (BitArray_init d) 16 16 = Inr h"
    and ss: "3 * w * h div 100 \<noteq> 0 \<or> w * h = 0"
  shows "\<exists>px. decode_image d = Inr (w, h, px) \<and> length px = nat (w * h)"
proof -
  let ?bits = "BitArray_init d" and ?ss = "3 * w * h div 100" and ?n = "nat (w * h)"
  have c: "?ss \<noteq> 0 \<or> ?n = 0" using ss by auto
  from decode_channel_total [OF c, of ?bits 32 0 "[]" 0 0]
  obtain idx1 v1 red step1 i1 where 1:
    "decode_channel ?bits ?ss ?n (32, 0, [], 0, 0) = Inr (idx1, v1, red, step1, i1)"
    "length red = ?n" by auto
  from decode_channel_total [OF c, of ?bits idx1 0 "[]" step1 i1]
  obtain idx2 v2 green step2 i2 where 2:
    "decode_channel ?bits ?ss ?n (idx1, 0, [], step1, i1) = Inr (idx2, v2, green, step2, i2)"
    "length green = ?n" by auto
  from decode_channel_total [OF c, of ?bits idx2 0 "[]" step2 i2]
  obtain idx3 v3 blue step3 i3 where 3:
    "decode_channel ?bits ?ss ?n (idx2, 0, [], step2, i2) = Inr (idx3, v3, blue, step3, i3)"
    "length blue = ?n" by auto
  have "decode_image d = Inr (w, h, zip3 red green blue)"
    unfolding decode_image_def Let_def
    by (simp only: w h 1(1) 2(1) 3(1) sum.case prod.case)
  moreover have "length (zip3 red green blue) = ?n"
    using 1(2) 2(2) 3(2) by simp
  ultimately show ?thesis by blast
qed

lemma decode_frame:
  assumes bits: "bits_of_bytes d = frame_bits w h px @ post"
    and valid: "valid_image w h px"
    and ss: "3 * w * h div 100 \<noteq> 0 \<or> px = []"
  shows "decode_image d = Inr (w, h, px)"
proof -
  let ?r = "map (\<lambda>pixel. fst pixel) px"
  let ?g = "map (\<lambda>pixel. fst (snd pixel)) px"
  let ?b = "map (\<lambda>pixel. snd (snd pixel)) px"
  let ?ss = "3 * w * h div 100"
  let ?bits = "BitArray_init d"
  let ?W = "encode_bits w 16" and ?H = "encode_bits h 16"
  let ?R = "channel_code 0 ?r" and ?G = "channel_code 0 ?g" and ?B = "channel_code 0 ?b"
  have w: "0 \<le> w" "w \<le> 65535" and h: "0 \<le> h" "h \<le> 65535"
    and n: "int (length px) = w * h"
    using valid by (simp_all add: valid_image_def)
  have rv: "\<forall>v \<in> set ?r. 0 \<le> v \<and> v \<le> 255"
    and gv: "\<forall>v \<in> set ?g. 0 \<le> v \<and> v \<le> 255"
    and bv: "\<forall>v \<in> set ?b. 0 \<le> v \<and> v \<le> 255"
    using valid by (auto simp: valid_image_def)
  have b1: "bits_of_bytes d = [] @ ?W @ (?H @ ?R @ ?G @ ?B @ post)"
    and b2: "bits_of_bytes d = ?W @ ?H @ (?R @ ?G @ ?B @ post)"
    and b3: "bits_of_bytes d = (?W @ ?H) @ ?R @ (?G @ ?B @ post)"
    and b4: "bits_of_bytes d = (?W @ ?H @ ?R) @ ?G @ (?B @ post)"
    and b5: "bits_of_bytes d = (?W @ ?H @ ?R @ ?G) @ ?B @ post"
    using bits by (simp_all add: frame_bits_def)
  have rw: "read_bits ?bits 0 16 = Inr w"
    using read_at [OF b1] w by (simp add: length_encode_bits bits_val_encode_bits)
  have rh: "read_bits ?bits 16 16 = Inr h"
    using read_at [OF b2] h by (simp add: length_encode_bits bits_val_encode_bits)
  have cnt: "nat (w * h) = length px" using n by simp
  have c: "?ss \<noteq> 0 \<or> ?r = []" "?ss \<noteq> 0 \<or> ?g = []" "?ss \<noteq> 0 \<or> ?b = []"
    using ss by auto
  from decode_channel_code [OF b3 rv c(1), of "[]" 0 0]
  obtain v1 step1 i1 where d1:
    "decode_channel ?bits ?ss (length px) (32, 0, [], 0, 0)
     = Inr (int (length (?W @ ?H @ ?R)), v1, ?r, step1, i1)"
    by (auto simp: length_encode_bits)
  from decode_channel_code [OF b4 gv c(2), of "[]" step1 i1]
  obtain v2 step2 i2 where d2:
    "decode_channel ?bits ?ss (length px) (int (length (?W @ ?H @ ?R)), 0, [], step1, i1)
     = Inr (int (length (?W @ ?H @ ?R @ ?G)), v2, ?g, step2, i2)"
    by (auto simp: length_encode_bits)
  from decode_channel_code [OF b5 bv c(3), of "[]" step2 i2]
  obtain v3 step3 i3 where d3:
    "decode_channel ?bits ?ss (length px) (int (length (?W @ ?H @ ?R @ ?G)), 0, [], step2, i2)
     = Inr (int (length (?W @ ?H @ ?R @ ?G @ ?B)), v3, ?b, step3, i3)"
    by (auto simp: length_encode_bits)
  show ?thesis
    unfolding decode_image_def Let_def
    by (simp only: rw rh cnt d1 d2 d3 sum.case prod.case zip3_channels)
qed

lemma decode_header_only:
  assumes len: "length d = 4"
    and w: "read_bits (BitArray_init d) 0 16 = Inr w"
    and h: "read_bits (BitArray_init d) 16 16 = Inr h"
    and ss: "3 * w * h div 100 \<noteq> 0"
  shows "decode_image d = Inr (w, h, replicate (nat (w * h)) (0, 0, 0))"
proof -
  let ?bits = "BitArray_init d" and ?ss = "3 * w * h div 100" and ?n = "nat (w * h)"
  have b: "8 * int (length d) \<le> 32" using len by simp
  from decode_channel_beyond [OF b ss, of ?n 0 "[]" 0 0]
  obtain v1 step1 i1 where 1:
    "decode_channel ?bits ?ss ?n (32, 0, [], 0, 0)
     = Inr (32 + 9 * int ?n, v1, replicate ?n 0, step1, i1)" by auto
  have b1: "8 * int (length d) \<le> 32 + 9 * int ?n" using len by simp
  from decode_channel_beyond [OF b1 ss, of ?n 0 "[]" step1 i1]
  obtain v2 step2 i2 where 2:
    "decode_channel ?bits ?ss ?n (32 + 9 * int ?n, 0, [], step1, i1)
     = Inr (32 + 9 * int ?n + 9 * int ?n, v2, replicate ?n 0, step2, i2)" by auto
  have b2: "8 * int (length d) \<le> 32 + 9 * int ?n + 9 * int ?n" using len by simp
  from decode_channel_beyond [OF b2 ss, of ?n 0 "[]" step2 i2]
  obtain v3 step3 i3 where 3:
    "decode_channel ?bits ?ss ?n (32 + 9 * int ?n + 9 * int ?n, 0, [], step2, i2)
     = Inr (32 + 9 * int ?n + 9 * int ?n + 9 * int ?n, v3, replicate ?n 0, step3, i3)" by auto
  show ?thesis
    unfolding decode_image_def Let_def
    by (simp only: w h 1 2 3 sum.case prod.case zip3_replicate)
qed

lemma decode_image_zero_step:
  assumes w: "read_bits (BitArray_init d) 0 16 = Inr w"
    and h: "read_bits (BitArray_init d) 16 16 = Inr h"
    and ss: "3 * w * h div 100 = 0" and n: "0 < w * h"
  shows "decode_image d = Inl ZeroDivisionError"
proof -
  obtain k where k: "nat (w * h) = Suc k"
    using n by (cases "nat (w * h)") auto
  show ?thesis
    unfolding decode_image_def Let_def
    by (simp only: w h ss k decode_channel_zero_step sum.case)
qed

subsection \<open>The round trip where the progress counter does not divide by zero\<close>

text \<open>
  A valid image of at least 34 pixels, or of none, is decoded from its encoding unchanged.
\<close>

lemma roundtrip:
  assumes "valid_image w h px" "100 \<le> 3 * w * h \<or> w * h = 0"
  shows "\<exists>d. encode_image w h px = Inr d \<and> decode_image d = Inr (w, h, px)"
proof -
  have ss: "3 * w * h div 100 \<noteq> 0 \<or> px = []"
  proof (cases "w * h = 0")
    case True
    then have "int (length px) = 0" using assms(1) by (simp add: valid_image_def)
    then show ?thesis by simp
  next
    case False
    then have "100 \<le> 3 * w * h" using assms(2) by simp
    then have "1 \<le> 3 * w * h div 100" by (simp add: pos_imp_zdiv_pos_iff)
    then show ?thesis by simp
  qed
  from encode_image_bits [OF ss]
  obtain d k where e: "encode_image w h px = Inr d"
    "bits_of_bytes d = frame_bits w h px @ replicate k False" by blast
  from decode_frame [OF e(2) assms(1) ss] e(1) show ?thesis by simp
qed

section \<open>The claims\<close>

subsection \<open>C1: the round trip of every valid image\<close>

text \<open>
  Claim C1: for every valid image, \<^verbatim>\<open>decode_image\<close> applied to the result of
  \<^verbatim>\<open>encode_image\<close> returns the original width, height and pixels. The code does so
  for a valid image of at least 34 pixels or of none (lemma \<open>roundtrip\<close> above). For
  a smaller one it raises: on the valid 2 by 2 image below, \<open>step_size\<close> is
  \<open>12 div 100 = 0\<close> and the remainder by it is a division by zero.
\<close>

theorem encode_image_2x2_raises:
  "encode_image 2 2 [(1, 2, 3), (4, 5, 6), (7, 8, 9), (10, 11, 12)] = Inl ZeroDivisionError"
  by code_simp

subsection \<open>C2: the division by zero on small images\<close>

text \<open>
  Claim C2: for every width and height with \<open>0 < 3 * width * height < 100\<close>,
  \<^verbatim>\<open>encode_image\<close> on a pixel list of width times height pixels, and
  \<^verbatim>\<open>decode_image\<close> on any buffer whose header reads as that width and height,
  raise ZeroDivisionError from the progress counter and return nothing.
\<close>

theorem small_image_division_by_zero:
  assumes "0 < 3 * w * h" "3 * w * h < 100"
  shows "(int (length px) = w * h \<longrightarrow> encode_image w h px = Inl ZeroDivisionError)
       \<and> (read_bits (BitArray_init d) 0 16 = Inr w \<and> read_bits (BitArray_init d) 16 16 = Inr h
            \<longrightarrow> decode_image d = Inl ZeroDivisionError)"
proof -
  have ss: "3 * w * h div 100 = 0"
    using assms by (simp add: div_pos_pos_trivial)
  have "3 * w * h = 3 * (w * h)" by simp
  then have n: "0 < w * h" using assms(1) by linarith
  have "encode_image w h px = Inl ZeroDivisionError" if "int (length px) = w * h"
  proof -
    have "px \<noteq> []" using that n by auto
    from encode_image_zero_step [OF ss this] show ?thesis .
  qed
  moreover have "decode_image d = Inl ZeroDivisionError"
    if "read_bits (BitArray_init d) 0 16 = Inr w \<and> read_bits (BitArray_init d) 16 16 = Inr h"
    using decode_image_zero_step [OF _ _ ss n] that by blast
  ultimately show ?thesis by blast
qed

text \<open>
  An instance: the 1 by 1 image, and the buffer that holds only its header.
\<close>

theorem small_image_division_by_zero_1x1:
  "encode_image 1 1 [(7, 8, 9)] = Inl ZeroDivisionError
   \<and> decode_image [0, 1, 0, 1] = Inl ZeroDivisionError"
proof -
  have a: "(0::int) < 3 * 1 * 1" "(3::int) * 1 * 1 < 100" by simp_all
  have r: "read_bits (BitArray_init [0, 1, 0, 1]) 0 16 = Inr 1"
    "read_bits (BitArray_init [0, 1, 0, 1]) 16 16 = Inr 1" by code_simp+
  from small_image_division_by_zero [OF a, of "[(7, 8, 9)]" "[0, 1, 0, 1]"] r
  show ?thesis by simp
qed

subsection \<open>C3: decoding a buffer that is too short\<close>

text \<open>
  The claim as the spec states it, that a buffer shorter than its header requires
  makes \<^verbatim>\<open>decode_image\<close> fail, does not hold: the four bytes below declare a
  34 by 1 image and hold no sample, and the decoder returns 34 black pixels.
\<close>

theorem decode_header_only_34x1:
  "decode_image [0, 34, 0, 1] = Inr (34, 1, replicate 34 (0, 0, 0))"
  by code_simp

text \<open>
  Claim C3, amended: \<^verbatim>\<open>decode_image\<close> has no check of the buffer's length. For
  every buffer whose header declares a width and a height with
  \<open>3 * width * height \<ge> 100\<close>, however short the buffer is, it returns an image of
  that width and height with width times height pixels; a buffer of the 32-bit header
  alone decodes to pixels \<open>(0, 0, 0)\<close>.
\<close>

theorem decode_short_buffer_returns:
  assumes "read_bits (BitArray_init d) 0 16 = Inr w"
    and "read_bits (BitArray_init d) 16 16 = Inr h"
    and "100 \<le> 3 * w * h"
  shows "(\<exists>px. decode_image d = Inr (w, h, px) \<and> length px = nat (w * h))
       \<and> (length d = 4 \<longrightarrow> decode_image d = Inr (w, h, replicate (nat (w * h)) (0, 0, 0)))"
proof -
  have "1 \<le> 3 * w * h div 100" using assms(3) by (simp add: pos_imp_zdiv_pos_iff)
  then have ss: "3 * w * h div 100 \<noteq> 0" by simp
  then have ss': "3 * w * h div 100 \<noteq> 0 \<or> w * h = 0" by simp
  show ?thesis
    using decode_image_total [OF assms(1,2) ss'] decode_header_only [OF _ assms(1,2) ss]
    by blast
qed

text \<open>
  An instance: the header of a 10 by 10 image alone.
\<close>

theorem decode_short_buffer_returns_10x10:
  "decode_image [0, 10, 0, 10] = Inr (10, 10, replicate 100 (0, 0, 0))"
proof -
  have r: "read_bits (BitArray_init [0, 10, 0, 10]) 0 16 = Inr 10"
    "read_bits (BitArray_init [0, 10, 0, 10]) 16 16 = Inr 10" by code_simp+
  have b: "(100::int) \<le> 3 * 10 * 10" by simp
  from decode_short_buffer_returns [OF r b] show ?thesis by simp
qed

subsection \<open>C4: reading past the end of the buffer\<close>

text \<open>
  The claim as the spec states it, that a read with
  \<open>bit_offset + length > 8 * len(buffer)\<close> fails with a bounds error, does not hold:
  one bit of the empty buffer reads as 0, and eight bits from bit 4 of the one byte
  \<open>0xFF\<close> read as \<open>0x0F\<close>.
\<close>

theorem read_bits_past_end_examples:
  "read_bits (BitArray_init []) 0 1 = Inr 0 \<and> read_bits (BitArray_init [255]) 4 8 = Inr 15"
  by code_simp

text \<open>
  Claim C4, amended: for every buffer and every read at a non-negative offset with a
  non-negative length and \<open>bit_offset + length > 8 * len(buffer)\<close>, the read does not
  fail. It returns an unsigned integer below \<open>2 ^ length\<close>: the bytes from byte
  \<open>bit_offset div 8\<close> to the end of the buffer as a big-endian number, shifted right by
  \<open>(8 - (bit_offset + length)) mod 8\<close> and reduced modulo \<open>2 ^ length\<close>.
\<close>

theorem read_bits_past_end_returns:
  assumes "0 \<le> idx" "0 \<le> len" "8 * int (length (data ba)) < idx + len"
  shows "\<exists>v. read_bits ba idx len = Inr v \<and> 0 \<le> v \<and> v < 2 ^ nat len
           \<and> v = drop_bit (nat ((8 - (idx + len)) mod 8))
                   (from_bytes_big (drop (nat (idx div 8)) (data ba))) mod 2 ^ nat len"
proof -
  have s: "0 \<le> idx div 8" using assms(1) by (simp add: pos_imp_zdiv_nonneg_iff)
  have "8 * (int (length (data ba)) + 1) \<le> idx + len + 7" using assms(3) by simp
  then have "(8 * (int (length (data ba)) + 1)) div 8 \<le> (idx + len + 7) div 8"
    by (rule zdiv_mono1) simp
  then have e: "int (length (data ba)) \<le> (idx + len + 7) div 8" by simp
  have nl: "\<not> len < 0" using assms(2) by simp
  have "read_bits ba idx len =
        Inr (take_bit (nat len) (drop_bit (nat ((8 - (idx + len)) mod 8))
               (from_bytes_big (drop (nat (idx div 8)) (data ba)))))"
    unfolding read_bits_def Let_def
    by (simp only: nl if_False py_slice_to_end [OF s e] mask_int take_bit_eq_mask [symmetric])
  then show ?thesis
    by (simp add: take_bit_eq_mod)
qed

text \<open>
  An instance: eight bits from bit 12 of the two bytes \<open>0x12 0x34\<close>.
\<close>

theorem read_bits_past_end_returns_at_12:
  "read_bits (BitArray_init [18, 52]) 12 8 = Inr 3"
proof -
  have "(0::int) \<le> 12" "(0::int) \<le> 8" "8 * int (length (data (BitArray_init [18, 52]))) < 12 + 8"
    by (simp_all add: BitArray_init_def)
  from read_bits_past_end_returns [OF this]
  obtain v where v: "read_bits (BitArray_init [18, 52]) 12 8 = Inr v"
    "v = drop_bit (nat ((8 - (12 + 8)) mod 8))
           (from_bytes_big (drop (nat (12 div 8)) (data (BitArray_init [18, 52])))) mod 2 ^ nat 8"
    by blast
  have "drop_bit (nat ((8 - (12 + 8)) mod 8))
           (from_bytes_big (drop (nat (12 div 8)) (data (BitArray_init [18, 52])))) mod 2 ^ nat 8
        = (3::int)"
    by code_simp
  then show ?thesis using v by simp
qed

subsection \<open>C5: \<^verbatim>\<open>read_bits\<close> never raises\<close>

text \<open>
  Claim C5: for every buffer, every non-negative bit index and every positive length,
  \<^verbatim>\<open>read_bits\<close> returns an unsigned integer below \<open>2 ^ length\<close> and raises no
  error; when \<open>index div 8\<close> is at least the number of bytes it returns 0.
\<close>

theorem read_bits_never_raises:
  assumes "0 \<le> idx" "0 < len"
  shows "(\<exists>v. read_bits ba idx len = Inr v \<and> 0 \<le> v \<and> v < 2 ^ nat len)
       \<and> (int (length (data ba)) \<le> idx div 8 \<longrightarrow> read_bits ba idx len = Inr 0)"
proof -
  have l: "0 \<le> len" using assms(2) by simp
  show ?thesis
    using read_bits_nonneg_len [OF l, of ba idx] read_bits_beyond [OF l, of ba idx] by blast
qed

text \<open>
  An instance: five bits from bit 16 of a buffer of two bytes.
\<close>

theorem read_bits_never_raises_at_16:
  "(\<exists>v. read_bits (BitArray_init [1, 2]) 16 5 = Inr v \<and> 0 \<le> v \<and> v < 32)
   \<and> read_bits (BitArray_init [1, 2]) 16 5 = Inr 0"
proof -
  have "(0::int) \<le> 16" "(0::int) < 5" by simp_all
  from read_bits_never_raises [OF this, of "BitArray_init [1, 2]"]
  show ?thesis by (simp add: BitArray_init_def)
qed

subsection \<open>C6: dimensions that do not fit\<close>

text \<open>
  The claim as the spec states it, that \<^verbatim>\<open>encode_image\<close> fails when the width
  or the height does not fit in 16 unsigned bits or the number of pixels is not width
  times height, does not hold: width 65536 is encoded as 0, and a 100 by 1 image with
  no pixels is encoded as its header.
\<close>

theorem encode_image_unchecked_examples:
  "encode_image 65536 0 [] = Inr [0, 0, 0, 0] \<and> encode_image 100 1 [] = Inr [0, 100, 0, 1]"
  by code_simp

text \<open>
  Claim C6, amended: \<^verbatim>\<open>encode_image\<close> checks neither the dimensions nor the
  number of pixels. Whatever the width, the height and the length of the pixel list,
  if \<open>3 * width * height div 100\<close> is not 0 or the list is empty it returns a buffer,
  whose first 32 bits are the width modulo \<open>2 ^ 16\<close> and the height modulo
  \<open>2 ^ 16\<close>.
\<close>

theorem encode_image_checks_no_dimension:
  assumes "3 * w * h div 100 \<noteq> 0 \<or> px = []"
  shows "\<exists>d. encode_image w h px = Inr d
           \<and> read_bits (BitArray_init d) 0 16 = Inr (w mod 65536)
           \<and> read_bits (BitArray_init d) 16 16 = Inr (h mod 65536)"
proof -
  from encode_image_bits [OF assms]
  obtain d k where e: "encode_image w h px = Inr d"
    "bits_of_bytes d = frame_bits w h px @ replicate k False" by blast
  let ?W = "encode_bits w 16" and ?H = "encode_bits h 16"
  let ?rest = "channel_code 0 (map (\<lambda>pixel. fst pixel) px)
     @ channel_code 0 (map (\<lambda>pixel. fst (snd pixel)) px)
     @ channel_code 0 (map (\<lambda>pixel. snd (snd pixel)) px) @ replicate k False"
  have b1: "bits_of_bytes d = [] @ ?W @ (?H @ ?rest)"
    and b2: "bits_of_bytes d = ?W @ ?H @ ?rest"
    using e(2) by (simp_all add: frame_bits_def)
  have "read_bits (BitArray_init d) 0 16 = Inr (w mod 65536)"
    using read_at [OF b1] by (simp add: length_encode_bits bits_val_encode_bits)
  moreover have "read_bits (BitArray_init d) 16 16 = Inr (h mod 65536)"
    using read_at [OF b2] by (simp add: length_encode_bits bits_val_encode_bits)
  ultimately show ?thesis using e(1) by blast
qed

text \<open>
  An instance: width 70000, height 1 and a single pixel.
\<close>

theorem encode_image_checks_no_dimension_70000:
  "\<exists>d. encode_image 70000 1 [(1, 2, 3)] = Inr d
     \<and> read_bits (BitArray_init d) 0 16 = Inr 4464
     \<and> read_bits (BitArray_init d) 16 16 = Inr 1"
proof -
  have "3 * 70000 * 1 div 100 \<noteq> (0::int) \<or> [(1::int, 2::int, 3::int)] = []" by simp
  from encode_image_checks_no_dimension [OF this] show ?thesis by simp
qed

subsection \<open>C7: the delta code is lossless\<close>

text \<open>
  Claim C7: for every predictor and every sample value in \<open>[0, 255]\<close> whose delta
  (value minus predictor) lies in \<open>[-8, 7]\<close>, the encoder writes the delta code (flag
  1, sign bit \<open>delta < 0\<close>, three bits \<open>delta mod 8\<close>), and decoding it (the
  magnitude minus 8 if the sign bit is set, the magnitude otherwise, added to the
  predictor) gives the sample value back.

  The statement holds at every position of a stream. The writer may be in any state
  that satisfies the invariant, with any number of bits pending: it appends exactly
  the five bits of the code. The reader may stand at any cursor of any buffer that
  holds the code there, whatever comes before and after: it reads the flag, the sign
  and the magnitude, returns the sample value and advances the cursor by 5. And the two
  fit together: after any bits \<open>pre\<close> written to a fresh bit array, the code, and
  any bits \<open>post\<close>, the bytes that \<^verbatim>\<open>to_bytes\<close> returns are these bits and
  the zero padding, and decoding at cursor \<open>length pre\<close> gives the value.
\<close>

theorem delta_code_roundtrip:
  assumes "0 \<le> p" "p \<le> 255" "0 \<le> v" "v \<le> 255" "- 8 \<le> v - p" "v - p \<le> 7"
    and "buffer_ok ba"
  shows "(\<exists>ba1. encode_value ba p v = Inr ba1 \<and> buffer_ok ba1
            \<and> contents ba1 = contents ba @ [True, v - p < 0] @ encode_bits ((v - p) mod 8) 3)
       \<and> p + (if v - p < 0 then (v - p) mod 8 - 8 else (v - p) mod 8) = v
       \<and> (bits_of_bytes d = pre @ [True, v - p < 0] @ encode_bits ((v - p) mod 8) 3 @ post
            \<longrightarrow> read_bits (BitArray_init d) (int (length pre)) 1 = Inr 1
              \<and> read_bits (BitArray_init d) (int (length pre) + 1) 1 = Inr (of_bool (v - p < 0))
              \<and> read_bits (BitArray_init d) (int (length pre) + 2) 3 = Inr ((v - p) mod 8)
              \<and> decode_value (BitArray_init d) (int (length pre)) p
                  = Inr (v, int (length pre) + 5))
       \<and> (\<exists>ba0 ba1 ba2 d1.
             add_bits (BitArray_init []) pre = Inr ba0
           \<and> encode_value ba0 p v = Inr ba1
           \<and> add_bits ba1 post = Inr ba2
           \<and> to_bytes ba2 = Inr (d1, BitArray_init d1)
           \<and> bits_of_bytes d1
               = pre @ [True, v - p < 0] @ encode_bits ((v - p) mod 8) 3 @ post
                 @ replicate ((8 - (length pre + 5 + length post) mod 8) mod 8) False
           \<and> read_bits (BitArray_init d1) (int (length pre)) 1 = Inr 1
           \<and> read_bits (BitArray_init d1) (int (length pre) + 1) 1 = Inr (of_bool (v - p < 0))
           \<and> read_bits (BitArray_init d1) (int (length pre) + 2) 3 = Inr ((v - p) mod 8)
           \<and> decode_value (BitArray_init d1) (int (length pre)) p
               = Inr (v, int (length pre) + 5))"
proof -
  let ?neg = "v - p < 0"
  let ?m = "encode_bits ((v - p) mod 8) 3"
  let ?code = "[True, ?neg] @ ?m"
  have sc: "sample_code p v = ?code"
    using assms(5,6) by (simp add: sample_code_def)
  have lc: "length ?code = 5" by (simp add: length_encode_bits)
  have reads: "read_bits (BitArray_init e) (int (length xs)) 1 = Inr 1
       \<and> read_bits (BitArray_init e) (int (length xs) + 1) 1 = Inr (of_bool ?neg)
       \<and> read_bits (BitArray_init e) (int (length xs) + 2) 3 = Inr ((v - p) mod 8)
       \<and> decode_value (BitArray_init e) (int (length xs)) p = Inr (v, int (length xs) + 5)"
    if b: "bits_of_bytes e = xs @ ?code @ ys" for e xs ys
  proof -
    have 0: "bits_of_bytes e = xs @ sample_code p v @ ys"
      using b sc by simp
    have 1: "bits_of_bytes e = xs @ [True] @ ([?neg] @ ?m @ ys)"
      and 2: "bits_of_bytes e = (xs @ [True]) @ [?neg] @ (?m @ ys)"
      and 3: "bits_of_bytes e = (xs @ [True, ?neg]) @ ?m @ ys"
      using b by simp_all
    have r1: "read_bits (BitArray_init e) (int (length xs)) 1 = Inr 1"
      using read_at [OF 1] by (simp add: bits_val_1)
    have r2: "read_bits (BitArray_init e) (int (length xs) + 1) 1 = Inr (of_bool ?neg)"
      using read_at [OF 2] by (simp add: bits_val_1 add.commute)
    have r3: "read_bits (BitArray_init e) (int (length xs) + 2) 3 = Inr ((v - p) mod 8)"
      using read_at [OF 3]
      by (simp add: length_encode_bits bits_val_encode_bits add.commute)
    have dv: "decode_value (BitArray_init e) (int (length xs)) p = Inr (v, int (length xs) + 5)"
      using decode_value_code [OF 0 assms(3,4)] sc by (simp add: length_encode_bits)
    show ?thesis using r1 r2 r3 dv by blast
  qed
  have rec_delta: "p + (if ?neg then (v - p) mod 8 - 8 else (v - p) mod 8) = v"
  proof (cases ?neg)
    case True
    have "(v - p) mod 8 = (v - p + 8) mod 8" by simp
    also have "\<dots> = v - p + 8"
      using True assms(5) by (intro mod_pos_pos_trivial) simp_all
    finally show ?thesis using True by simp
  next
    case False
    then show ?thesis using assms(6) by (simp add: mod_pos_pos_trivial)
  qed
  have wrt: "\<exists>ba1. encode_value ba p v = Inr ba1 \<and> buffer_ok ba1
            \<and> contents ba1 = contents ba @ ?code"
    using encode_value_ok [OF assms(7), of p v] sc by simp
  have whole: "\<exists>ba0 ba1 ba2 d1.
             add_bits (BitArray_init []) pre = Inr ba0
           \<and> encode_value ba0 p v = Inr ba1
           \<and> add_bits ba1 post = Inr ba2
           \<and> to_bytes ba2 = Inr (d1, BitArray_init d1)
           \<and> bits_of_bytes d1
               = pre @ ?code @ post
                 @ replicate ((8 - (length pre + 5 + length post) mod 8) mod 8) False
           \<and> read_bits (BitArray_init d1) (int (length pre)) 1 = Inr 1
           \<and> read_bits (BitArray_init d1) (int (length pre) + 1) 1 = Inr (of_bool ?neg)
           \<and> read_bits (BitArray_init d1) (int (length pre) + 2) 3 = Inr ((v - p) mod 8)
           \<and> decode_value (BitArray_init d1) (int (length pre)) p
               = Inr (v, int (length pre) + 5)"
  proof -
    from add_bits_ok [OF buffer_ok_init, of "[]" pre]
    obtain ba0 where 0: "add_bits (BitArray_init []) pre = Inr ba0" "buffer_ok ba0"
      "contents ba0 = pre"
      by (auto simp: contents_init bits_of_bytes_Nil)
    from encode_value_ok [OF 0(2), of p v]
    obtain ba1 where 1: "encode_value ba0 p v = Inr ba1" "buffer_ok ba1"
      "contents ba1 = pre @ ?code"
      using 0(3) sc by auto
    from add_bits_ok [OF 1(2), of post]
    obtain ba2 where 2: "add_bits ba1 post = Inr ba2" "buffer_ok ba2"
      "contents ba2 = pre @ ?code @ post"
      using 1(3) by auto
    from to_bytes_state [OF 2(2)]
    obtain d1 where 3: "to_bytes ba2 = Inr (d1, BitArray_init d1)"
      "bits_of_bytes d1 = contents ba2 @ replicate ((8 - index ba2) mod 8) False" by blast
    have "index ba2 = (length pre + 5 + length post) mod 8"
      using index_contents [OF 2(2)] by (simp add: 2(3) length_encode_bits add.assoc)
    then have bits: "bits_of_bytes d1 = pre @ ?code
        @ (post @ replicate ((8 - (length pre + 5 + length post) mod 8) mod 8) False)"
      using 3(2) 2(3) by simp
    from reads [OF bits] 0(1) 1(1) 2(1) 3(1) bits show ?thesis
      by (intro exI [of _ ba0] exI [of _ ba1] exI [of _ ba2] exI [of _ d1]) simp
  qed
  have rd: "bits_of_bytes d = pre @ ?code @ post
      \<longrightarrow> read_bits (BitArray_init d) (int (length pre)) 1 = Inr 1
              \<and> read_bits (BitArray_init d) (int (length pre) + 1) 1 = Inr (of_bool ?neg)
              \<and> read_bits (BitArray_init d) (int (length pre) + 2) 3 = Inr ((v - p) mod 8)
              \<and> decode_value (BitArray_init d) (int (length pre)) p
                  = Inr (v, int (length pre) + 5)"
    using reads [of d pre post] by blast
  show ?thesis
    using wrt rec_delta rd whole by (simp only: append_Cons append_Nil)
qed

text \<open>
  An instance: predictor 200 and value 193, delta \<open>-7\<close>, magnitude 1, as the second
  red sample of a 34 by 1 image. The writer has one bit pending after the header and
  the literal code of 200, and the reader stands at cursor 41.
\<close>

theorem delta_code_roundtrip_200_193:
  "(\<exists>ba1. encode_value \<lparr>data = [0, 34, 0, 1, 100], buffer = replicate 8 False, index = 1\<rparr>
            200 193 = Inr ba1 \<and> buffer_ok ba1
        \<and> contents ba1
            = contents \<lparr>data = [0, 34, 0, 1, 100], buffer = replicate 8 False, index = 1\<rparr>
              @ [True, True, False, False, True])
   \<and> read_bits (BitArray_init [0, 34, 0, 1, 100, 100]) 41 1 = Inr 1
   \<and> read_bits (BitArray_init [0, 34, 0, 1, 100, 100]) 42 1 = Inr 1
   \<and> read_bits (BitArray_init [0, 34, 0, 1, 100, 100]) 43 3 = Inr 1
   \<and> decode_value (BitArray_init [0, 34, 0, 1, 100, 100]) 41 200 = Inr (193, 46)
   \<and> (\<exists>ba0 ba1 ba2.
         add_bits (BitArray_init []) (encode_bits 34 16 @ encode_bits 1 16 @ False # encode_bits 200 8)
           = Inr ba0
       \<and> encode_value ba0 200 193 = Inr ba1
       \<and> add_bits ba1 [] = Inr ba2
       \<and> to_bytes ba2 = Inr ([0, 34, 0, 1, 100, 100], BitArray_init [0, 34, 0, 1, 100, 100]))"
proof -
  let ?ba = "\<lparr>data = [0, 34, 0, 1, 100], buffer = replicate 8 False, index = 1\<rparr>"
  let ?d = "[0, 34, 0, 1, 100, 100] :: byte list"
  let ?pre = "encode_bits 34 16 @ encode_bits 1 16 @ False # encode_bits 200 8"
  have r: "(0::int) \<le> 200" "(200::int) \<le> 255" "(0::int) \<le> 193" "(193::int) \<le> 255"
    "- 8 \<le> (193::int) - 200" "(193::int) - 200 \<le> 7" by simp_all
  have ok: "buffer_ok ?ba" by (simp add: buffer_ok_def)
  have m: "encode_bits ((193 - 200) mod 8) 3 = [False, False, True]" by code_simp
  have lp: "int (length ?pre) = 41" by (simp add: length_encode_bits)
  have bits: "bits_of_bytes ?d
      = ?pre @ [True, (193::int) - 200 < 0] @ encode_bits ((193 - 200) mod 8) 3 @ [False, False]"
    by code_simp
  note t = delta_code_roundtrip [OF r ok, of ?d ?pre "[]"]
  note u = delta_code_roundtrip [OF r ok, of ?d ?pre "[False, False]"]
  from t obtain ba0 ba1 ba2 d1 where w:
    "add_bits (BitArray_init []) ?pre = Inr ba0" "encode_value ba0 200 193 = Inr ba1"
    "add_bits ba1 [] = Inr ba2" "to_bytes ba2 = Inr (d1, BitArray_init d1)"
    "bits_of_bytes d1 = ?pre @ [True, (193::int) - 200 < 0] @ encode_bits ((193 - 200) mod 8) 3
       @ [] @ replicate ((8 - (length ?pre + 5 + length ([]::bool list)) mod 8) mod 8) False"
    by blast
  have "to_bytes ba2 = Inr (?d, BitArray_init ?d)"
  proof -
    have "add_bits (BitArray_init []) ?pre
        = Inr \<lparr>data = [0, 34, 0, 1, 100], buffer = replicate 8 False, index = 1\<rparr>"
      by code_simp
    then have "ba0 = ?ba" using w(1) by simp
    moreover have "encode_value ?ba 200 193
        = Inr \<lparr>data = [0, 34, 0, 1, 100],
               buffer = [False, True, True, False, False, True, False, False], index = 6\<rparr>"
      by code_simp
    ultimately have "ba2 = \<lparr>data = [0, 34, 0, 1, 100],
               buffer = [False, True, True, False, False, True, False, False], index = 6\<rparr>"
      using w(2,3) by simp
    moreover have "to_bytes \<lparr>data = [0, 34, 0, 1, 100],
               buffer = [False, True, True, False, False, True, False, False], index = 6\<rparr>
         = Inr (?d, BitArray_init ?d)"
      by code_simp
    ultimately show ?thesis by simp
  qed
  then have whole: "\<exists>ba0 ba1 ba2. add_bits (BitArray_init []) ?pre = Inr ba0
       \<and> encode_value ba0 200 193 = Inr ba1 \<and> add_bits ba1 [] = Inr ba2
       \<and> to_bytes ba2 = Inr (?d, BitArray_init ?d)"
    using w(1,2,3) by blast
  have first: "\<exists>ba1. encode_value ?ba 200 193 = Inr ba1 \<and> buffer_ok ba1
        \<and> contents ba1 = contents ?ba @ [True, True, False, False, True]"
    using t m by simp
  have rd: "read_bits (BitArray_init ?d) 41 1 = Inr 1
     \<and> read_bits (BitArray_init ?d) 42 1 = Inr 1
     \<and> read_bits (BitArray_init ?d) 43 3 = Inr 1
     \<and> decode_value (BitArray_init ?d) 41 200 = Inr (193, 46)"
    using u bits lp by simp
  show ?thesis using first rd whole by blast
qed

subsection \<open>C8: the delta boundary\<close>

text \<open>
  Claim C8: after the value 10, the value 2 (delta \<open>-8\<close>) is written as a delta
  code with sign bit 1 and magnitude 0, and the value 18 (delta 8) as a literal;
  decoding each with predictor 10 gives 2 and 18. The byte \<open>192\<close> is
  \<open>11000|000\<close>, the bytes \<open>9, 0\<close> are \<open>0|00010010|0000000\<close>. The same holds
  for the channels \<open>[10, 2]\<close> and \<open>[10, 18]\<close> run through the loops over a
  channel, here with \<open>step_size = 1\<close>.
\<close>

theorem delta_boundary:
  "(case encode_value (BitArray_init []) 10 2 of Inl e \<Rightarrow> Inl e | Inr ba \<Rightarrow> to_bytes ba)
     = Inr ([192], BitArray_init [192])
   \<and> read_bits (BitArray_init [192]) 0 1 = Inr 1
   \<and> read_bits (BitArray_init [192]) 1 1 = Inr 1
   \<and> read_bits (BitArray_init [192]) 2 3 = Inr 0
   \<and> decode_value (BitArray_init [192]) 0 10 = Inr (2, 5)
   \<and> (case encode_value (BitArray_init []) 10 18 of Inl e \<Rightarrow> Inl e | Inr ba \<Rightarrow> to_bytes ba)
     = Inr ([9, 0], BitArray_init [9, 0])
   \<and> read_bits (BitArray_init [9, 0]) 0 1 = Inr 0
   \<and> read_bits (BitArray_init [9, 0]) 1 8 = Inr 18
   \<and> decode_value (BitArray_init [9, 0]) 0 10 = Inr (18, 9)
   \<and> (case encode_channel 1 [10, 2] (BitArray_init [], 0, 0, 0) of Inl e \<Rightarrow> Inl e
       | Inr (ba, v, step, i) \<Rightarrow> to_bytes ba) = Inr ([5, 96], BitArray_init [5, 96])
   \<and> decode_channel (BitArray_init [5, 96]) 1 2 (0, 0, [], 0, 0) = Inr (14, 2, [10, 2], 2, 2)
   \<and> (case encode_channel 1 [10, 18] (BitArray_init [], 0, 0, 0) of Inl e \<Rightarrow> Inl e
       | Inr (ba, v, step, i) \<Rightarrow> to_bytes ba) = Inr ([5, 4, 128], BitArray_init [5, 4, 128])
   \<and> decode_channel (BitArray_init [5, 4, 128]) 1 2 (0, 0, [], 0, 0)
     = Inr (18, 18, [10, 18], 2, 2)"
  by code_simp

subsection \<open>C9: bit packing\<close>

text \<open>
  Claim C9: the bits \<open>1,0,1,1,0,1,0,0\<close> appended to a fresh bit array give the one
  byte \<open>0b10110100 = 180\<close>; any three bits appended to a fresh bit array give one
  byte with these bits as bits 7, 6 and 5 and the five low bits zero.
\<close>

theorem bit_packing:
  "(case add_bits (BitArray_init []) [True, False, True, True, False, True, False, False] of
      Inl e \<Rightarrow> Inl e | Inr ba \<Rightarrow> to_bytes ba) = Inr ([180], BitArray_init [180])
   \<and> (\<exists>w. (case add_bits (BitArray_init []) [b0, b1, b2] of
               Inl e \<Rightarrow> Inl e | Inr ba \<Rightarrow> to_bytes ba) = Inr ([w], BitArray_init [w])
          \<and> bit w 7 = b0 \<and> bit w 6 = b1 \<and> bit w 5 = b2 \<and> take_bit 5 w = 0)"
proof -
  let ?w = "word_of_int (128 * of_bool b0 + 64 * of_bool b1 + 32 * of_bool b2) :: byte"
  have "(case add_bits (BitArray_init []) [b0, b1, b2] of
               Inl e \<Rightarrow> Inl e | Inr ba \<Rightarrow> to_bytes ba) = Inr ([?w], BitArray_init [?w])
          \<and> bit ?w 7 = b0 \<and> bit ?w 6 = b1 \<and> bit ?w 5 = b2 \<and> take_bit 5 ?w = 0"
    by (cases b0; cases b1; cases b2; simp only: ; code_simp)
  moreover have "(case add_bits (BitArray_init []) [True, False, True, True, False, True, False, False] of
      Inl e \<Rightarrow> Inl e | Inr ba \<Rightarrow> to_bytes ba) = Inr ([180], BitArray_init [180])"
    by code_simp
  ultimately show ?thesis by blast
qed

subsection \<open>C10: reads across byte boundaries\<close>

text \<open>
  Claim C10: on the buffer \<open>0xAB 0xCD\<close>, \<^verbatim>\<open>read_bits(4, 8)\<close> is \<open>0xBC\<close>;
  and for every offset and length within the buffer, \<^verbatim>\<open>read_bits\<close> returns the
  bits at positions \<open>offset, ..., offset + length - 1\<close> of the buffer, the first of
  them as the most significant bit of the result.
\<close>

theorem read_bits_msb_first:
  "read_bits (BitArray_init [0xAB, 0xCD]) 4 8 = Inr 0xBC
   \<and> (0 \<le> idx \<and> 0 \<le> len \<and> idx + len \<le> 8 * int (length (data ba))
      \<longrightarrow> read_bits ba idx len
            = Inr (bits_val (take (nat len) (drop (nat idx) (bits_of_bytes (data ba))))))"
proof -
  have "read_bits (BitArray_init [0xAB, 0xCD]) 4 8 = Inr 0xBC" by code_simp
  then show ?thesis using read_bits_in_bounds [of idx len ba] by blast
qed

text \<open>
  An instance: twelve bits from bit 6 of \<open>0x12 0x34 0x56\<close>.
\<close>

theorem read_bits_msb_first_at_6:
  "read_bits (BitArray_init [0x12, 0x34, 0x56]) 6 12 = Inr 0x8D1"
proof -
  have h: "(0::int) \<le> 6 \<and> (0::int) \<le> 12
      \<and> 6 + 12 \<le> 8 * int (length (data (BitArray_init [0x12, 0x34, 0x56])))"
    by (simp add: BitArray_init_def)
  have "bits_val (take (nat 12) (drop (nat 6) (bits_of_bytes (data (BitArray_init [0x12, 0x34, 0x56])))))
        = 0x8D1"
    by code_simp
  then show ?thesis
    using read_bits_msb_first [of 6 12 "BitArray_init [0x12, 0x34, 0x56]"] h by simp
qed

end
